theory Spec2Isabelle
  imports Complex_Main "HOL-Library.Sublist" "HOL-Library.Multiset"
begin

section \<open>Python strings\<close>

text \<open>
  A Python \<open>str\<close> is a sequence of Unicode code points. A code point is a natural
  number here, so that \<open>len\<close> counts what Python counts; \<open>lit\<close> embeds the
  (ASCII) string literals of the source.
\<close>

type_synonym pystr = "nat list"

definition lit :: "string \<Rightarrow> pystr" where
  "lit s = map of_char s"

text \<open>\<open>sep.join(parts)\<close>\<close>

fun join :: "pystr \<Rightarrow> pystr list \<Rightarrow> pystr" where
  "join sep [] = []"
| "join sep [x] = x"
| "join sep (x # y # ys) = x @ sep @ join sep (y # ys)"

text \<open>\<open>str(n)\<close> for a non-negative integer: its decimal digits.\<close>

fun str_nat :: "nat \<Rightarrow> pystr" where
  "str_nat n = (if n < 10 then [48 + n] else str_nat (n div 10) @ [48 + n mod 10])"

declare str_nat.simps [simp del]

section \<open>The worker: prompts and sampling parameters\<close>

text \<open>
  A value held in \<open>text_data\<close>: the constructor takes anything, and \<open>run\<close> tests
  \<open>isinstance(text_data, str)\<close> and \<open>isinstance(text_data, list)\<close>.
\<close>

datatype pyval = PStr pystr | PList "pyval list" | PObj nat

record worker =
  text_data :: pyval
  model :: pystr
  prompt_type :: pystr
  custom_prompt :: pystr
  answer_length :: pystr
  is_chunked :: bool

definition summary_prompt :: pystr where
  "summary_prompt = lit (
     ''You are an expert note-taking assistant specializing in creating structured, '' @
     ''detailed summaries. Create a comprehensive summary of the provided text. '' @
     ''Focus on key facts, important concepts, and critical takeaways. '' @
     ''Organize information logically with clear sections and paragraphs. '' @
     ''Do not use markdown or special formatting in your response.'')"

definition brief_prompt :: pystr where
  "brief_prompt = lit (
     ''Create a concise brief overview of the following text. '' @
     ''Focus on the most important concepts and key takeaways. '' @
     ''Use a clear paragraph structure.'')"

definition qna_prompt :: pystr where
  "qna_prompt =
     lit ''Generate 5 important questions and detailed answers based on the following text. '' @
     lit ''Format each pair clearly as:'' @ [10] @
     lit ''Q: [Question]'' @ [10] @
     lit ''A: [Detailed answer]'' @ [10] @
     lit ''Separate each pair with a blank line.''"

definition questions_prompt :: pystr where
  "questions_prompt = lit (
     ''Create 10 practice questions based on the following text. '' @
     ''Include a mix of multiple choice, short answer, and discussion questions. '' @
     ''Number each question clearly.'')"

definition professor_prompt :: pystr where
  "professor_prompt = lit (
     ''You are a helpful professor assistant. Answer questions about the provided text '' @
     ''in a clear, educational manner. Provide detailed explanations and examples where appropriate.'')"

text \<open>
  The dictionary \<open>self.prompts\<close> built by \<open>__init__\<close>, in the order of the literal.
  A Python string is true exactly when it is not empty.
\<close>

definition prompts :: "worker \<Rightarrow> (pystr \<times> pystr) list" where
  "prompts w =
     [(lit ''summary'', summary_prompt),
      (lit ''brief'', brief_prompt),
      (lit ''qna'', qna_prompt),
      (lit ''questions'', questions_prompt),
      (lit ''professor'',
         if custom_prompt w \<noteq> [] then custom_prompt w else professor_prompt)]"

text \<open>
  \<open>self.prompts.get(self.prompt_type, self.prompts["summary"])\<close>. The default is the
  entry under the key \<open>"summary"\<close>, which the literal always holds
  (lemma \<open>prompts_summary\<close> below).
\<close>

definition base_prompt :: "worker \<Rightarrow> pystr" where
  "base_prompt w =
     (case map_of (prompts w) (prompt_type w) of
        Some p \<Rightarrow> p
      | None \<Rightarrow> summary_prompt)"

text \<open>
  The system prompt, built by the same lines in \<open>process_full_text\<close> and in
  \<open>process_chunk\<close>.
\<close>

definition build_prompt :: "worker \<Rightarrow> pystr" where
  "build_prompt w =
     (if answer_length w \<noteq> [] \<and> prompt_type w = lit ''professor''
      then (lit ''Answer length: '' @ answer_length w @ lit ''. '') @ base_prompt w
      else base_prompt w)"

text \<open>
  The option \<open>"temperature": 0.4 if self.prompt_type in ["summary", "brief"] else 0.7\<close>;
  the two decimal literals are kept as the rationals they denote.
\<close>

definition temperature :: "worker \<Rightarrow> rat" where
  "temperature w =
     (if prompt_type w \<in> set [lit ''summary'', lit ''brief''] then 4 / 10 else 7 / 10)"

text \<open>One call of \<open>self.client.chat\<close>.\<close>

record request =
  req_model :: pystr
  req_system :: pystr
  req_user :: pyval
  req_temperature :: rat
  req_top_p :: rat

definition chat_request :: "worker \<Rightarrow> pyval \<Rightarrow> request" where
  "chat_request w content =
     \<lparr>req_model = model w, req_system = build_prompt w, req_user = content,
      req_temperature = temperature w, req_top_p = 9 / 10\<rparr>"

text \<open>
  What the awaited call does:
  \<^item> \<open>Reply t\<close>: it returns, and \<open>response['message']['content']\<close> is \<open>t\<close>;
  \<^item> \<open>Raised e\<close>: an exception is raised that is an instance of \<open>Exception\<close>, the
    class that the handlers name (\<open>except Exception as e\<close>); they use \<open>str(e)\<close>
    only, which is \<open>e\<close> here;
  \<^item> \<open>Aborted\<close>: an exception is raised that is not an instance of \<open>Exception\<close>
    (\<open>asyncio.CancelledError\<close>, \<open>KeyboardInterrupt\<close>, \<open>SystemExit\<close>); no handler
    of the worker catches it.
\<close>

datatype outcome = Reply pystr | Raised pystr | Aborted

section \<open>Progress values\<close>

text \<open>
  \<open>int((index + 1) / len(chunks) * 100)\<close> is computed in binary floating point: the
  true division of two integers and the product with \<open>100\<close> are each rounded to the
  nearest double (ties to even), and \<open>int\<close> truncates. The doubles are kept as the
  rationals they denote. Exponent limits are left out: the quotient of two list
  lengths and its product with \<open>100\<close> are far inside the normal range.
\<close>

text \<open>
  The binary exponent of a rational: how often a number from \<open>2\<close> on is halved, and
  a positive number below \<open>1\<close> doubled, to reach the interval from \<open>1\<close> to \<open>2\<close>.
\<close>

function ilog_up :: "rat \<Rightarrow> nat" where
  "ilog_up q = (if 2 \<le> q then Suc (ilog_up (q / 2)) else 0)"
  by pat_completeness auto
termination
proof (relation "measure (\<lambda>q. nat \<lfloor>q\<rfloor>)")
  show "wf (measure (\<lambda>q::rat. nat \<lfloor>q\<rfloor>))" by simp
next
  fix q :: rat
  assume "2 \<le> q"
  then have "q / 2 \<le> q - 1" by simp
  then have "\<lfloor>q / 2\<rfloor> \<le> \<lfloor>q - 1\<rfloor>" by (rule floor_mono)
  moreover have "1 \<le> \<lfloor>q\<rfloor>" using \<open>2 \<le> q\<close> by linarith
  ultimately show "(q / 2, q) \<in> measure (\<lambda>q. nat \<lfloor>q\<rfloor>)" by simp
qed

function ilog_down :: "rat \<Rightarrow> nat" where
  "ilog_down q = (if 0 < q \<and> q < 1 then Suc (ilog_down (q * 2)) else 0)"
  by pat_completeness auto
termination
proof (relation "measure (\<lambda>q. nat \<lceil>1 / q\<rceil>)")
  show "wf (measure (\<lambda>q::rat. nat \<lceil>1 / q\<rceil>))" by simp
next
  fix q :: rat
  assume a: "0 < q \<and> q < 1"
  then have 1: "1 < 1 / q" by simp
  then have c: "2 \<le> \<lceil>1 / q\<rceil>" by linarith
  have "1 / (q * 2) \<le> of_int \<lceil>1 / q\<rceil> / 2"
    using le_of_int_ceiling [of "1 / q"] by simp
  also have "\<dots> \<le> of_int (\<lceil>1 / q\<rceil> - 1)" using c by simp
  finally have "1 / (q * 2) \<le> of_int (\<lceil>1 / q\<rceil> - 1)" .
  then have "\<lceil>1 / (q * 2)\<rceil> \<le> \<lceil>1 / q\<rceil> - 1" by (rule ceiling_le)
  with c a show "(q * 2, q) \<in> measure (\<lambda>q. nat \<lceil>1 / q\<rceil>)" by simp
qed

declare ilog_up.simps [simp del] ilog_down.simps [simp del]

text \<open>Rounding to the nearest integer, ties to the even one.\<close>

definition rne :: "rat \<Rightarrow> int" where
  "rne q =
     (let f = \<lfloor>q\<rfloor>; r = q - of_int f
      in if r < 1 / 2 then f
         else if 1 / 2 < r then f + 1
         else if even f then f else f + 1)"

text \<open>
  The double nearest to a rational: with the exponent \<open>expo q\<close> of \<open>q\<close>, the unit
  in the last place of its 53 significant bits is \<open>2 powi (expo q - 52)\<close>.
\<close>

definition expo :: "rat \<Rightarrow> int" where
  "expo q = (if 1 \<le> \<bar>q\<bar> then int (ilog_up \<bar>q\<bar>) else - int (ilog_down \<bar>q\<bar>))"

definition round_double :: "rat \<Rightarrow> rat" where
  "round_double q = (let e = expo q - 52 in of_int (rne (q / 2 powi e)) * 2 powi e)"

definition float_truediv :: "int \<Rightarrow> int \<Rightarrow> rat" where
  "float_truediv a b = round_double (of_int a / of_int b)"

definition float_mul :: "rat \<Rightarrow> rat \<Rightarrow> rat" where
  "float_mul x y = round_double (x * y)"

definition int_of_float :: "rat \<Rightarrow> int" where
  "int_of_float x = (if 0 \<le> x then \<lfloor>x\<rfloor> else \<lceil>x\<rceil>)"

text \<open>
  \<open>int((index + 1) / len(chunks) * 100)\<close>, evaluated inside \<open>process_chunk\<close>, where
  \<open>chunks\<close> holds the chunk at hand and so is not empty.
\<close>

definition progress_value :: "nat \<Rightarrow> nat \<Rightarrow> int" where
  "progress_value index n =
     int_of_float (float_mul (float_truediv (int index + 1) (int n)) 100)"

section \<open>The worker: signals and the two processing paths\<close>

datatype signal = Output pystr | Progress int | Finished pystr

text \<open>What a processing path leaves behind: \<open>self.result\<close>, the signals emitted, in
  order, and the calls issued to the client, in order.\<close>

record report =
  result :: pystr
  emitted :: "signal list"
  requests :: "request list"

text \<open>
  \<open>process_full_text\<close>: one call; \<open>r\<close> is what the call does. \<open>None\<close>: the
  exception of the call is not one for \<open>except Exception\<close> and leaves the coroutine.
\<close>

definition process_full_text :: "worker \<Rightarrow> pyval \<Rightarrow> outcome \<Rightarrow> report option" where
  "process_full_text w text r =
     (case r of
        Reply content \<Rightarrow>
          Some \<lparr>result = content,
                emitted = [Output (lit ''Sending full text to model...''), Progress 100,
                           Output (lit ''Processing complete.'')],
                requests = [chat_request w text]\<rparr>
      | Raised e \<Rightarrow>
          (let error_msg = lit ''[ERROR] Failed to process text: '' @ e
           in Some \<lparr>result = error_msg,
                    emitted = [Output (lit ''Sending full text to model...''), Output error_msg],
                    requests = [chat_request w text]\<rparr>)
      | Aborted \<Rightarrow> None)"

subsection \<open>Chunked processing under the semaphore\<close>

text \<open>
  \<open>process_chunks\<close> creates one coroutine per chunk and awaits them together. The
  event loop runs one coroutine at a time and switches only at an \<open>await\<close>, so each
  task takes two atomic steps:
  \<^item> \<open>Enter i\<close>: task \<open>i\<close> acquires the semaphore (possible only while its value is
    positive), emits its status line, builds the prompt and issues the call;
  \<^item> \<open>Return i\<close>: the call of task \<open>i\<close> returns, or raises an exception that the
    handler catches; the task appends to \<open>summaries\<close>, emits its signal and leaves
    the \<open>async with\<close> block, which releases the semaphore.
  A schedule is the list of these steps in the order the event loop takes them.

  A call that raises an exception outside \<open>Exception\<close> gives no next state of
  \<open>process_chunks\<close>: the exception passes the handler of the task, and
  \<open>asyncio.gather\<close> raises it in \<open>process_chunks\<close>, which ends there without a
  result. \<open>return\<close> has no state for it, and \<open>process_chunks_raises\<close> below tells
  the schedules that end this way.
\<close>

datatype sched = Enter nat | Return nat

record dispatch =
  sem :: nat
  waiting :: "(nat \<times> pyval) list"
  in_flight :: "nat list"
  summaries :: "pystr list"
  signals :: "signal list"
  calls :: "request list"

text \<open>The state after \<open>semaphore = asyncio.Semaphore(2)\<close>, \<open>summaries = []\<close> and
  the creation of the tasks from \<open>enumerate(chunks)\<close>.\<close>

definition start :: "pyval list \<Rightarrow> dispatch" where
  "start chunks =
     \<lparr>sem = 2, waiting = enumerate 0 chunks, in_flight = [], summaries = [],
      signals = [Output (lit ''Split into '' @ str_nat (length chunks) @
                         lit '' chunks for processing...'')],
      calls = []\<rparr>"

definition enter :: "worker \<Rightarrow> nat \<Rightarrow> nat \<Rightarrow> dispatch \<Rightarrow> dispatch option" where
  "enter w n index s =
     (case map_of (waiting s) index of
        None \<Rightarrow> None
      | Some chunk \<Rightarrow>
          if sem s = 0 then None
          else Some (s\<lparr>sem := sem s - 1,
                       waiting := filter (\<lambda>t. fst t \<noteq> index) (waiting s),
                       in_flight := in_flight s @ [index],
                       signals := signals s @
                         [Output (lit ''Processing chunk '' @ str_nat (index + 1) @ lit ''/'' @
                                  str_nat n @ lit ''...'')],
                       calls := calls s @ [chat_request w chunk]\<rparr>))"

definition return :: "nat \<Rightarrow> (nat \<Rightarrow> outcome) \<Rightarrow> nat \<Rightarrow> dispatch \<Rightarrow> dispatch option" where
  "return n reply index s =
     (if index \<notin> set (in_flight s) then None
      else
        (case reply index of
           Reply summary \<Rightarrow>
             Some (s\<lparr>sem := sem s + 1,
               in_flight := removeAll index (in_flight s),
               summaries := summaries s @ [summary],
               signals := signals s @ [Progress (progress_value index n)]\<rparr>)
         | Raised e \<Rightarrow>
             (let error_msg = lit ''[ERROR] Processing chunk '' @ str_nat (index + 1) @
                              lit '': '' @ e
              in Some (s\<lparr>sem := sem s + 1,
                   in_flight := removeAll index (in_flight s),
                   summaries := summaries s @ [error_msg],
                   signals := signals s @ [Output error_msg]\<rparr>))
         | Aborted \<Rightarrow> None))"

fun step :: "worker \<Rightarrow> nat \<Rightarrow> (nat \<Rightarrow> outcome) \<Rightarrow> sched \<Rightarrow> dispatch \<Rightarrow> dispatch option" where
  "step w n reply (Enter i) s = enter w n i s"
| "step w n reply (Return i) s = return n reply i s"

fun exec :: "worker \<Rightarrow> nat \<Rightarrow> (nat \<Rightarrow> outcome) \<Rightarrow> sched list \<Rightarrow> dispatch \<Rightarrow> dispatch option" where
  "exec w n reply [] s = Some s"
| "exec w n reply (e # es) s =
     (case step w n reply e s of None \<Rightarrow> None | Some s' \<Rightarrow> exec w n reply es s')"

text \<open>The separator of the final join.\<close>

definition separator :: "worker \<Rightarrow> pystr" where
  "separator w =
     (if prompt_type w = lit ''summary''
      then [10, 10] @ lit ''--- SECTION BREAK ---'' @ [10, 10]
      else [10, 10])"

text \<open>
  \<open>process_chunks\<close> under a schedule: \<open>None\<close> when the schedule is not one of the
  program (a step that cannot be taken, such as the return of a call whose exception
  no handler catches) or stops before \<open>asyncio.gather\<close> can return (a task has not
  finished).
\<close>

definition process_chunks ::
    "worker \<Rightarrow> pyval list \<Rightarrow> (nat \<Rightarrow> outcome) \<Rightarrow> sched list \<Rightarrow> report option" where
  "process_chunks w chunks reply tr =
     (case exec w (length chunks) reply tr (start chunks) of
        None \<Rightarrow> None
      | Some s \<Rightarrow>
          if waiting s = [] \<and> in_flight s = []
          then Some \<lparr>result = join (separator w) (summaries s),
                     emitted = signals s, requests = calls s\<rparr>
          else None)"

text \<open>
  \<open>run\<close>: the choice of the path, the handler of last resort and the final signal.
  The handler of \<open>run\<close> names \<open>Exception\<close> too, and the final signal is emitted after
  the \<open>try\<close> statement: an exception that left the coroutine leaves \<open>run\<close> as well,
  and nothing is emitted (\<open>None\<close>; \<open>run_raises\<close> below tells these runs).
\<close>

definition finish :: "report \<Rightarrow> report" where
  "finish r = r\<lparr>emitted := emitted r @ [Finished (result r)]\<rparr>"

definition run :: "worker \<Rightarrow> (nat \<Rightarrow> outcome) \<Rightarrow> sched list \<Rightarrow> report option" where
  "run w reply tr =
     (case text_data w of
        PStr text \<Rightarrow>
          if \<not> is_chunked w
          then map_option finish (process_full_text w (text_data w) (reply 0))
          else map_option finish (process_chunks w [text_data w] reply tr)
      | PList chunks \<Rightarrow> map_option finish (process_chunks w chunks reply tr)
      | PObj x \<Rightarrow>
          if is_chunked w
          then map_option finish (process_chunks w [text_data w] reply tr)
          else Some (finish
                 \<lparr>result = lit ''[FATAL ERROR] '' @ lit ''Invalid text_data type for processing'',
                  emitted = [], requests = []\<rparr>))"

text \<open>
  The runs that an exception ends. \<open>process_chunks_raises\<close>: the schedule can be taken,
  and after it a call in flight raises an exception that is not an instance of
  \<open>Exception\<close>. The handler of the task does not catch it; it leaves the task,
  \<open>asyncio.gather\<close> raises it in \<open>process_chunks\<close>, which has no handler, and
  \<open>asyncio.run\<close> raises it in \<open>run\<close>, whose handler does not catch it either: the
  assignments to \<open>self.result\<close> and the final signal are not reached.
\<close>

definition process_chunks_raises ::
    "worker \<Rightarrow> pyval list \<Rightarrow> (nat \<Rightarrow> outcome) \<Rightarrow> sched list \<Rightarrow> bool" where
  "process_chunks_raises w chunks reply tr =
     (case exec w (length chunks) reply tr (start chunks) of
        None \<Rightarrow> False
      | Some s \<Rightarrow> list_ex (\<lambda>i. reply i = Aborted) (in_flight s))"

definition run_raises :: "worker \<Rightarrow> (nat \<Rightarrow> outcome) \<Rightarrow> sched list \<Rightarrow> bool" where
  "run_raises w reply tr =
     (case text_data w of
        PStr text \<Rightarrow>
          if \<not> is_chunked w
          then reply 0 = Aborted
          else process_chunks_raises w [text_data w] reply tr
      | PList chunks \<Rightarrow> process_chunks_raises w chunks reply tr
      | PObj x \<Rightarrow>
          if is_chunked w
          then process_chunks_raises w [text_data w] reply tr
          else False)"

text \<open>The units that \<open>run\<close> hands to \<open>process_chunks\<close>, if it takes that path.\<close>

definition chunks_of :: "worker \<Rightarrow> pyval list option" where
  "chunks_of w =
     (case text_data w of
        PStr text \<Rightarrow> if \<not> is_chunked w then None else Some [text_data w]
      | PList chunks \<Rightarrow> Some chunks
      | PObj x \<Rightarrow> if is_chunked w then Some [text_data w] else None)"

section \<open>The segmenter\<close>

text \<open>
  The characters that \<open>str.strip()\<close> and \<open>str.split()\<close> without arguments take for
  whitespace (those for which \<open>str.isspace\<close> holds).
\<close>

definition isspace :: "nat \<Rightarrow> bool" where
  "isspace c \<longleftrightarrow>
     c \<in> set [9, 10, 11, 12, 13, 28, 29, 30, 31, 32, 133, 160, 5760,
               8232, 8233, 8239, 8287, 12288] \<or>
     (8192 \<le> c \<and> c \<le> 8202)"

definition lstrip :: "pystr \<Rightarrow> pystr" where
  "lstrip s = dropWhile isspace s"

definition rstrip :: "pystr \<Rightarrow> pystr" where
  "rstrip s = rev (dropWhile isspace (rev s))"

text \<open>\<open>s.strip()\<close>\<close>

definition strip :: "pystr \<Rightarrow> pystr" where
  "strip s = lstrip (rstrip s)"

text \<open>\<open>s.replace(old, new)\<close> for single characters \<open>old\<close> and \<open>new\<close>.\<close>

definition replace_char :: "nat \<Rightarrow> nat \<Rightarrow> pystr \<Rightarrow> pystr" where
  "replace_char old new s = map (\<lambda>c. if c = old then new else c) s"

text \<open>
  \<open>s.split(sep)\<close> for a separator that is not empty (Python raises \<open>ValueError\<close> for
  the empty one; the segmenter passes \<open>'. '\<close> and \<open>' '\<close>): the pieces between the
  occurrences of \<open>sep\<close>, found from the left, empty pieces included. \<open>cur\<close> is the
  piece being read.
\<close>

fun split_from :: "pystr \<Rightarrow> pystr \<Rightarrow> pystr \<Rightarrow> pystr list" where
  "split_from sep cur [] = [cur]"
| "split_from sep cur (c # cs) =
     (if sep \<noteq> [] \<and> prefix sep (c # cs)
      then cur # split_from sep [] (drop (length sep) (c # cs))
      else split_from sep (cur @ [c]) cs)"

definition py_split :: "pystr \<Rightarrow> pystr \<Rightarrow> pystr list" where
  "py_split sep s = split_from sep [] s"

text \<open>\<open>if current_chunk.strip(): chunks.append(current_chunk.strip())\<close>\<close>

definition flush :: "pystr list \<Rightarrow> pystr \<Rightarrow> pystr list" where
  "flush chunks current_chunk =
     (if strip current_chunk \<noteq> [] then chunks @ [strip current_chunk] else chunks)"

text \<open>The inner loop over the words of a sentence that is too long; the state is
  \<open>(chunks, current_chunk)\<close>.\<close>

fun pack_words :: "int \<Rightarrow> pystr list \<Rightarrow> pystr list \<times> pystr \<Rightarrow> pystr list \<times> pystr" where
  "pack_words max_chunk_size [] st = st"
| "pack_words max_chunk_size (word # ws) (chunks, current_chunk) =
     pack_words max_chunk_size ws
       (if int (length current_chunk) + int (length word) + 1 \<le> max_chunk_size
        then (chunks, current_chunk @ word @ [32])
        else (flush chunks current_chunk, word @ [32]))"

text \<open>The loop over the sentences.\<close>

fun pack_sentences ::
    "int \<Rightarrow> pystr list \<Rightarrow> pystr list \<times> pystr \<Rightarrow> pystr list \<times> pystr" where
  "pack_sentences max_chunk_size [] st = st"
| "pack_sentences max_chunk_size (sentence # rest) (chunks, current_chunk) =
     (let sentence_with_period = sentence @ [46, 32];
          test_chunk = current_chunk @ sentence_with_period
      in if int (length test_chunk) \<le> max_chunk_size
         then pack_sentences max_chunk_size rest (chunks, test_chunk)
         else
           (let chunks1 = flush chunks current_chunk
            in if int (length sentence_with_period) \<le> max_chunk_size
               then pack_sentences max_chunk_size rest (chunks1, sentence_with_period)
               else
                 (let (chunks2, last_part) =
                        pack_words max_chunk_size (py_split [32] sentence_with_period)
                          (chunks1, [])
                  in pack_sentences max_chunk_size rest (flush chunks2 last_part, []))))"

text \<open>\<open>[s.strip() for s in text.split('. ') if s.strip()]\<close> after the two
  replacements.\<close>

definition sentences :: "pystr \<Rightarrow> pystr list" where
  "sentences text =
     map strip (filter (\<lambda>s. strip s \<noteq> [])
       (py_split [46, 32] (replace_char 13 32 (replace_char 10 32 text))))"

definition split_text_into_chunks :: "pystr \<Rightarrow> int \<Rightarrow> pystr list" where
  "split_text_into_chunks text max_chunk_size =
     (let (chunks, current_chunk) =
            pack_sentences max_chunk_size (sentences text) ([], [])
      in flush chunks current_chunk)"

text \<open>
  Whitespace normalisation, in the words of the specification: the words of a text (its
  maximal runs of characters that are not whitespace, as \<open>str.split()\<close> gives them),
  joined by single spaces. \<open>cur\<close> is the word being read.
\<close>

fun words_from :: "pystr \<Rightarrow> pystr \<Rightarrow> pystr list" where
  "words_from cur [] = (if cur = [] then [] else [cur])"
| "words_from cur (c # cs) =
     (if isspace c
      then (if cur = [] then words_from [] cs else cur # words_from [] cs)
      else words_from (cur @ [c]) cs)"

definition words_of :: "pystr \<Rightarrow> pystr list" where
  "words_of s = words_from [] s"

definition ws_normalize :: "pystr \<Rightarrow> pystr" where
  "ws_normalize s = join [32] (words_of s)"

text \<open>
  What the loops of the segmenter maintain: a finished chunk fits the size or has no space
  in it; the chunk being filled is empty, fits the size, or is one word of a sentence
  followed by the space that the inner loop puts after it.
\<close>

definition fits :: "int \<Rightarrow> pystr \<Rightarrow> bool" where
  "fits m c \<longleftrightarrow> int (length c) \<le> m \<or> 32 \<notin> set c"

definition open_ok :: "int \<Rightarrow> pystr \<Rightarrow> bool" where
  "open_ok m cur \<longleftrightarrow>
     cur = [] \<or> int (length cur) \<le> m \<or> (\<exists>w. cur = w @ [32] \<and> 32 \<notin> set w)"

section \<open>Concrete requests\<close>

definition demo_professor :: worker where
  "demo_professor =
     \<lparr>text_data = PStr (lit ''What is a monad?''), model = lit ''gemma3:4b-it-qat'',
      prompt_type = lit ''professor'', custom_prompt = lit ''Be kind.'',
      answer_length = lit ''Brief answer (1-2 sentences)'', is_chunked = False\<rparr>"

definition demo_brief :: worker where
  "demo_brief =
     \<lparr>text_data = PList [PStr (lit ''x''), PStr (lit ''y'')], model = lit ''gemma3:4b-it-qat'',
      prompt_type = lit ''brief'', custom_prompt = lit ''Be kind.'',
      answer_length = lit ''Brief answer (1-2 sentences)'', is_chunked = True\<rparr>"

section \<open>Reading a schedule\<close>

text \<open>What task \<open>index\<close> appends to \<open>summaries\<close>: the reply, or the error message of
  the handler; nothing, if the exception of its call is not one for the handler.\<close>

definition contribution :: "(nat \<Rightarrow> outcome) \<Rightarrow> nat \<Rightarrow> pystr" where
  "contribution reply index =
     (case reply index of
        Reply summary \<Rightarrow> summary
      | Raised e \<Rightarrow> lit ''[ERROR] Processing chunk '' @ str_nat (index + 1) @ lit '': '' @ e
      | Aborted \<Rightarrow> [])"

text \<open>The order in which the calls complete under a schedule.\<close>

fun completion_order :: "sched list \<Rightarrow> nat list" where
  "completion_order [] = []"
| "completion_order (Enter i # es) = completion_order es"
| "completion_order (Return i # es) = i # completion_order es"

text \<open>
  The bookkeeping of a dispatch state against the list \<open>D\<close> of the tasks that are done:
  each of the \<open>n\<close> tasks is waiting, in flight or done, and only one of these; the
  semaphore counts the free slots; \<open>summaries\<close> holds the contributions of the done
  tasks in the order of \<open>D\<close>; each task in flight or done has issued its call.
\<close>

definition consistent :: "nat \<Rightarrow> (nat \<Rightarrow> outcome) \<Rightarrow> dispatch \<Rightarrow> nat list \<Rightarrow> bool" where
  "consistent n reply s D \<longleftrightarrow>
     distinct (map fst (waiting s)) \<and> distinct (in_flight s) \<and> distinct D \<and>
     fst ` set (waiting s) \<inter> set (in_flight s) = {} \<and>
     fst ` set (waiting s) \<inter> set D = {} \<and>
     set (in_flight s) \<inter> set D = {} \<and>
     fst ` set (waiting s) \<union> set (in_flight s) \<union> set D = {0..<n} \<and>
     sem s + length (in_flight s) = 2 \<and>
     summaries s = map (contribution reply) D \<and>
     length (calls s) = length (in_flight s) + length D"

text \<open>The values of the progress signals among the signals emitted, in order.\<close>

fun progress_values :: "signal list \<Rightarrow> int list" where
  "progress_values [] = []"
| "progress_values (Progress v # xs) = v # progress_values xs"
| "progress_values (Output m # xs) = progress_values xs"
| "progress_values (Finished m # xs) = progress_values xs"

text \<open>The tasks whose call returned a reply.\<close>

definition succeeded :: "(nat \<Rightarrow> outcome) \<Rightarrow> nat \<Rightarrow> bool" where
  "succeeded reply i = (case reply i of Reply t \<Rightarrow> True | Raised e \<Rightarrow> False | Aborted \<Rightarrow> False)"

text \<open>The tasks whose call returns or raises an exception that the handlers catch.\<close>

definition handled :: "(nat \<Rightarrow> outcome) \<Rightarrow> nat \<Rightarrow> bool" where
  "handled reply i = (case reply i of Reply t \<Rightarrow> True | Raised e \<Rightarrow> True | Aborted \<Rightarrow> False)"

definition demo_unknown :: worker where
  "demo_unknown =
     \<lparr>text_data = PStr (lit ''Some text.''), model = lit ''gemma3:4b-it-qat'',
      prompt_type = lit ''essay'', custom_prompt = lit ''Be kind.'',
      answer_length = lit ''Brief answer (1-2 sentences)'', is_chunked = False\<rparr>"

text \<open>Two units that both succeed; three units of which the second fails.\<close>

definition demo_reply :: "nat \<Rightarrow> outcome" where
  "demo_reply i = (if i = 0 then Reply (lit ''A'') else Reply (lit ''B''))"

definition demo_failing :: "nat \<Rightarrow> outcome" where
  "demo_failing i =
     (if i = 0 then Reply (lit ''A'')
      else if i = 1 then Raised (lit ''boom'')
      else Reply (lit ''C''))"

text \<open>Three units of which the second is cancelled: its call raises
  \<open>asyncio.CancelledError\<close>, which is not an instance of \<open>Exception\<close>.\<close>

definition demo_cancelled :: "nat \<Rightarrow> outcome" where
  "demo_cancelled i =
     (if i = 0 then Reply (lit ''A'')
      else if i = 1 then Aborted
      else Reply (lit ''C''))"

text \<open>Two units of a content type that is none of the five.\<close>

definition demo_unknown_chunks :: worker where
  "demo_unknown_chunks =
     \<lparr>text_data = PList [PStr (lit ''x''), PStr (lit ''y'')],
      model = lit ''gemma3:4b-it-qat'', prompt_type = lit ''essay'',
      custom_prompt = lit ''Be kind.'',
      answer_length = lit ''Brief answer (1-2 sentences)'', is_chunked = True\<rparr>"

definition demo_three :: worker where
  "demo_three =
     \<lparr>text_data = PList [PStr (lit ''x''), PStr (lit ''y''), PStr (lit ''z'')],
      model = lit ''gemma3:4b-it-qat'', prompt_type = lit ''summary'', custom_prompt = [],
      answer_length = [], is_chunked = True\<rparr>"

section \<open>Properties of the prompt builder\<close>

lemma lit_summary_ne_professor: "lit ''summary'' \<noteq> lit ''professor''"
  by (simp add: lit_def)

lemma prompts_summary: "map_of (prompts w) (lit ''summary'') = Some summary_prompt"
  by (simp add: prompts_def)

lemma prompt_keys_distinct:
  "lit ''summary'' \<noteq> lit ''brief''" "lit ''summary'' \<noteq> lit ''qna''"
  "lit ''summary'' \<noteq> lit ''questions''" "lit ''brief'' \<noteq> lit ''qna''"
  "lit ''brief'' \<noteq> lit ''questions''" "lit ''brief'' \<noteq> lit ''professor''"
  "lit ''qna'' \<noteq> lit ''questions''" "lit ''qna'' \<noteq> lit ''professor''"
  "lit ''questions'' \<noteq> lit ''professor''"
  by (simp_all add: lit_def)

lemma base_prompt_cases:
  "base_prompt w =
     (if prompt_type w = lit ''summary'' then summary_prompt
      else if prompt_type w = lit ''brief'' then brief_prompt
      else if prompt_type w = lit ''qna'' then qna_prompt
      else if prompt_type w = lit ''questions'' then questions_prompt
      else if prompt_type w = lit ''professor''
           then (if custom_prompt w \<noteq> [] then custom_prompt w else professor_prompt)
      else summary_prompt)"
  by (simp add: base_prompt_def prompts_def)

text \<open>
  C7. The base instruction of a professor request with a non-empty custom instruction is
  that custom instruction; a professor request with a length hint gets the clause
  \<open>Answer length: {hint}. \<close> in front of its base instruction; for every other
  content type the instruction is the base instruction, the fixed one of that type,
  whatever the length hint. Both processing paths send this instruction as the system
  prompt.
\<close>

theorem build_prompt_rules:
  "(prompt_type w = lit ''professor'' \<and> custom_prompt w \<noteq> [] \<longrightarrow>
      base_prompt w = custom_prompt w) \<and>
   (answer_length w \<noteq> [] \<and> prompt_type w = lit ''professor'' \<longrightarrow>
      build_prompt w = lit ''Answer length: '' @ answer_length w @ lit ''. '' @ base_prompt w) \<and>
   (prompt_type w \<noteq> lit ''professor'' \<longrightarrow>
      build_prompt w = base_prompt w \<and>
      build_prompt (w\<lparr>answer_length := h\<rparr>) = build_prompt w \<and>
      (prompt_type w = lit ''summary'' \<longrightarrow> build_prompt w = summary_prompt) \<and>
      (prompt_type w = lit ''brief'' \<longrightarrow> build_prompt w = brief_prompt) \<and>
      (prompt_type w = lit ''qna'' \<longrightarrow> build_prompt w = qna_prompt) \<and>
      (prompt_type w = lit ''questions'' \<longrightarrow> build_prompt w = questions_prompt)) \<and>
   req_system (chat_request w content) = build_prompt w"
  using lit_summary_ne_professor prompt_keys_distinct
  by (simp add: build_prompt_def base_prompt_cases chat_request_def)


theorem build_prompt_rules_witness:
  "prompt_type demo_professor = lit ''professor'' \<and> custom_prompt demo_professor \<noteq> [] \<and>
   answer_length demo_professor \<noteq> [] \<and>
   base_prompt demo_professor = lit ''Be kind.'' \<and>
   build_prompt demo_professor =
     lit ''Answer length: '' @ lit ''Brief answer (1-2 sentences)'' @ lit ''. '' @ lit ''Be kind.'' \<and>
   prompt_type demo_brief \<noteq> lit ''professor'' \<and> prompt_type demo_brief = lit ''brief'' \<and>
   build_prompt demo_brief = brief_prompt \<and>
   build_prompt (demo_brief\<lparr>answer_length := []\<rparr>) = build_prompt demo_brief"
proof -
  have p: "prompt_type demo_professor = lit ''professor''"
    and c: "custom_prompt demo_professor = lit ''Be kind.''"
    and a: "answer_length demo_professor = lit ''Brief answer (1-2 sentences)''"
    by (simp_all add: demo_professor_def)
  have ne: "custom_prompt demo_professor \<noteq> []" "answer_length demo_professor \<noteq> []"
    by (simp_all add: demo_professor_def lit_def)
  have b: "prompt_type demo_brief = lit ''brief''"
    by (simp add: demo_brief_def)
  have bne: "prompt_type demo_brief \<noteq> lit ''professor''"
    using prompt_keys_distinct b by simp
  note P = build_prompt_rules [of demo_professor "[]" "PStr []"]
  note B = build_prompt_rules [of demo_brief "[]" "PStr []"]
  have 1: "base_prompt demo_professor = lit ''Be kind.''"
    using P p ne c by simp
  have 2: "build_prompt demo_professor =
      lit ''Answer length: '' @ lit ''Brief answer (1-2 sentences)'' @ lit ''. '' @ lit ''Be kind.''"
    using P p ne a 1 by simp
  have 3: "build_prompt demo_brief = brief_prompt"
    using B b bne by blast
  have 4: "build_prompt (demo_brief\<lparr>answer_length := []\<rparr>) = build_prompt demo_brief"
    using B bne by blast
  show ?thesis using p ne 1 2 b bne 3 4 by blast
qed

section \<open>Properties of the progress values\<close>

lemma ilog_up_bounds: "1 \<le> q \<Longrightarrow> 2 ^ ilog_up q \<le> q \<and> q < 2 * 2 ^ ilog_up q"
proof (induction q rule: ilog_up.induct)
  case (1 q)
  show ?case
  proof (cases "2 \<le> q")
    case True
    then have "1 \<le> q / 2" by simp
    from "1.IH" [OF True this] ilog_up.simps [of q] True show ?thesis by simp
  next
    case False
    with "1.prems" ilog_up.simps [of q] show ?thesis by simp
  qed
qed

lemma ilog_down_bounds:
  "0 < q \<Longrightarrow> q < 1 \<Longrightarrow> 1 \<le> q * 2 ^ ilog_down q \<and> q * 2 ^ ilog_down q < 2"
proof (induction q rule: ilog_down.induct)
  case (1 q)
  from "1.prems" have s: "ilog_down q = Suc (ilog_down (q * 2))"
    using ilog_down.simps [of q] by simp
  show ?case
  proof (cases "q * 2 < 1")
    case True
    from "1.prems" have "0 < q \<and> q < 1" "0 < q * 2" by simp_all
    from "1.IH" [OF this(1) this(2) True] s show ?thesis by (simp add: mult.assoc)
  next
    case False
    then have "ilog_down (q * 2) = 0" using ilog_down.simps [of "q * 2"] by simp
    with s False "1.prems" show ?thesis by simp
  qed
qed

lemma expo_bounds:
  assumes "0 < q"
  shows "2 powi expo q \<le> q" and "q < 2 powi (expo q + 1)"
proof -
  have "2 powi expo q \<le> q \<and> q < 2 powi (expo q + 1)"
  proof (cases "1 \<le> q")
    case True
    with assms have e: "expo q = int (ilog_up q)" by (simp add: expo_def)
    have "(2::rat) powi (int (ilog_up q) + 1) = 2 * 2 ^ ilog_up q"
      by (simp add: power_int_add)
    with ilog_up_bounds [OF True] show ?thesis unfolding e by simp
  next
    case False
    with assms have e: "expo q = - int (ilog_down q)" by (simp add: expo_def)
    from False have l: "q < 1" by simp
    note b = ilog_down_bounds [OF assms l]
    have p: "(2::rat) powi (- int (ilog_down q)) = 1 / 2 ^ ilog_down q"
      by (simp add: power_int_minus_divide)
    have "(2::rat) powi (- int (ilog_down q) + 1) = 2 powi (- int (ilog_down q)) * 2"
      by (rule power_int_add_1) simp
    then have p1: "(2::rat) powi (- int (ilog_down q) + 1) = 2 / 2 ^ ilog_down q"
      unfolding p by simp
    from b show ?thesis unfolding e p p1 by (simp add: field_simps)
  qed
  then show "2 powi expo q \<le> q" and "q < 2 powi (expo q + 1)" by simp_all
qed

lemma expo_mono:
  assumes "0 < p" "p \<le> q"
  shows "expo p \<le> expo q"
proof (rule ccontr)
  assume "\<not> expo p \<le> expo q"
  then have "expo q + 1 \<le> expo p" by simp
  then have "(2::rat) powi (expo q + 1) \<le> 2 powi expo p"
    by (rule power_int_increasing) simp
  also have "\<dots> \<le> p" using expo_bounds(1) [OF assms(1)] .
  also have "\<dots> \<le> q" by fact
  finally show False using expo_bounds(2) [of q] assms by simp
qed

lemma rne_floor: "\<lfloor>x\<rfloor> \<le> rne x"
  by (simp add: rne_def Let_def)

lemma rne_ceiling: "rne x \<le> \<lceil>x\<rceil>"
proof -
  have "\<lfloor>x\<rfloor> + 1 \<le> \<lceil>x\<rceil>" if "1 / 2 \<le> x - of_int \<lfloor>x\<rfloor>"
  proof -
    from that have "of_int \<lfloor>x\<rfloor> < x" by simp
    then show ?thesis by linarith
  qed
  moreover have "\<lfloor>x\<rfloor> \<le> \<lceil>x\<rceil>" by linarith
  ultimately show ?thesis
    by (auto simp: rne_def Let_def)
qed

lemma rne_ge:
  assumes "of_int n \<le> x"
  shows "n \<le> rne x"
proof -
  from assms have "n \<le> \<lfloor>x\<rfloor>" by (simp add: le_floor_iff)
  with rne_floor [of x] show ?thesis by simp
qed

lemma rne_le:
  assumes "x \<le> of_int n"
  shows "rne x \<le> n"
proof -
  from assms have "\<lceil>x\<rceil> \<le> n" by (rule ceiling_le)
  with rne_ceiling [of x] show ?thesis by simp
qed

lemma rne_mono:
  assumes "x \<le> y"
  shows "rne x \<le> rne y"
proof (cases "\<lfloor>x\<rfloor> = \<lfloor>y\<rfloor>")
  case True
  with assms show ?thesis
    by (auto simp: rne_def Let_def)
next
  case False
  with assms have "\<lfloor>x\<rfloor> < \<lfloor>y\<rfloor>" using floor_mono [OF assms] by simp
  then have "\<lceil>x\<rceil> \<le> \<lfloor>y\<rfloor>" by linarith
  with rne_ceiling [of x] rne_floor [of y] show ?thesis by simp
qed


lemma scaled_bounds:
  assumes "0 < q"
  shows "2 ^ 52 \<le> q / 2 powi (expo q - 52)" and "q / 2 powi (expo q - 52) < 2 ^ 53"
proof -
  have d: "(2::rat) powi (expo q - 52) = 2 powi expo q / 2 ^ 52"
    by (simp add: power_int_diff)
  have a: "(2::rat) powi (expo q + 1) = 2 powi expo q * 2"
    by (rule power_int_add_1) simp
  have pos: "(0::rat) < 2 powi expo q" by simp
  from expo_bounds(1) [OF assms] pos show "2 ^ 52 \<le> q / 2 powi (expo q - 52)"
    unfolding d by (simp add: field_simps)
  from expo_bounds(2) [OF assms] pos show "q / 2 powi (expo q - 52) < 2 ^ 53"
    unfolding d a by (simp add: field_simps)
qed

lemma round_double_pos:
  assumes "0 < q"
  shows "0 < round_double q"
proof -
  have "of_int (2 ^ 52) \<le> q / 2 powi (expo q - 52)"
    using scaled_bounds(1) [OF assms] by simp
  then have "2 ^ 52 \<le> rne (q / 2 powi (expo q - 52))" by (rule rne_ge)
  then have "0 < rne (q / 2 powi (expo q - 52))" by simp
  then show ?thesis by (simp add: round_double_def Let_def)
qed

lemma round_double_mono:
  assumes "0 < p" "p \<le> q"
  shows "round_double p \<le> round_double q"
proof -
  let ?ep = "expo p - 52" and ?eq = "expo q - 52"
  from assms have q: "0 < q" by simp
  have le: "?ep \<le> ?eq" using expo_mono [OF assms] by simp
  show ?thesis
  proof (cases "?ep = ?eq")
    case True
    have "p / 2 powi ?eq \<le> q / 2 powi ?eq"
      using assms(2) by (simp add: divide_right_mono)
    then have "rne (p / 2 powi ?eq) \<le> rne (q / 2 powi ?eq)" by (rule rne_mono)
    then have "(of_int (rne (p / 2 powi ?eq)) :: rat) \<le> of_int (rne (q / 2 powi ?eq))"
      by simp
    then have "of_int (rne (p / 2 powi ?eq)) * 2 powi ?eq \<le>
               of_int (rne (q / 2 powi ?eq)) * (2::rat) powi ?eq"
      by (rule mult_right_mono) simp
    with True show ?thesis by (simp add: round_double_def Let_def)
  next
    case False
    with le have lt: "?ep + 1 \<le> ?eq" by simp
    have "p / 2 powi ?ep \<le> of_int (2 ^ 53)"
      using scaled_bounds(2) [OF assms(1)] by simp
    then have "rne (p / 2 powi ?ep) \<le> 2 ^ 53" by (rule rne_le)
    then have "(of_int (rne (p / 2 powi ?ep)) :: rat) \<le> 2 ^ 53"
      by (metis of_int_le_iff of_int_numeral of_int_power)
    then have "of_int (rne (p / 2 powi ?ep)) * 2 powi ?ep \<le> 2 ^ 53 * (2::rat) powi ?ep"
      by (rule mult_right_mono) simp
    also have "\<dots> = 2 ^ 52 * 2 powi (?ep + 1)"
    proof -
      have "(2::rat) powi (?ep + 1) = 2 powi ?ep * 2"
        by (rule power_int_add_1) simp
      then show ?thesis by (simp only: power_Suc [symmetric, of "2::rat"] mult.assoc)
          (simp add: mult.commute)
    qed
    also have "\<dots> \<le> 2 ^ 52 * 2 powi ?eq"
      using power_int_increasing [OF lt, of "2::rat"] by simp
    also have "\<dots> \<le> of_int (rne (q / 2 powi ?eq)) * 2 powi ?eq"
    proof (rule mult_right_mono)
      have "of_int (2 ^ 52) \<le> q / 2 powi ?eq"
        using scaled_bounds(1) [OF q] by simp
      then have "2 ^ 52 \<le> rne (q / 2 powi ?eq)" by (rule rne_ge)
      then show "(2::rat) ^ 52 \<le> of_int (rne (q / 2 powi ?eq))"
        by (metis of_int_le_iff of_int_numeral of_int_power)
    qed simp
    finally show ?thesis by (simp add: round_double_def Let_def)
  qed
qed

lemma progress_value_mono:
  assumes "i \<le> j" "0 < n"
  shows "progress_value i n \<le> progress_value j n"
proof -
  let ?x = "\<lambda>k. float_truediv (int k + 1) (int n)"
  have pos: "0 < (of_int (int k + 1) :: rat) / of_int (int n)" for k
    using assms(2) by simp
  have "(of_int (int i + 1) :: rat) / of_int (int n) \<le> of_int (int j + 1) / of_int (int n)"
    using assms by (simp add: divide_right_mono)
  then have x: "?x i \<le> ?x j"
    unfolding float_truediv_def by (rule round_double_mono [OF pos])
  have xpos: "0 < ?x k" for k
    unfolding float_truediv_def by (rule round_double_pos [OF pos])
  from x have "?x i * 100 \<le> ?x j * 100" by simp
  moreover have "0 < ?x i * 100" using xpos [of i] by simp
  ultimately have y: "float_mul (?x i) 100 \<le> float_mul (?x j) 100"
    unfolding float_mul_def by (rule round_double_mono [rotated])
  have ypos: "0 < float_mul (?x k) 100" for k
    unfolding float_mul_def using xpos [of k] by (intro round_double_pos) simp
  from y ypos [of i] ypos [of j] show ?thesis
    by (simp add: progress_value_def int_of_float_def floor_mono)
qed


section \<open>Properties of the dispatcher\<close>

lemma fst_set_enumerate: "fst ` set (enumerate k xs) = {k..<k + length xs}"
  by (metis list.set_map map_fst_enumerate set_upt)

lemma consistent_start: "consistent (length chunks) reply (start chunks) []"
  by (simp add: consistent_def start_def fst_set_enumerate)

lemma fst_filter_ne: "fst ` set (filter (\<lambda>t. fst t \<noteq> i) xs) = fst ` set xs - {i}"
  by (induction xs) auto


lemma enter_fields:
  assumes "enter w n i s = Some s'"
  shows "i \<in> fst ` set (waiting s)" "0 < sem s" "sem s' = sem s - 1"
    "waiting s' = filter (\<lambda>t. fst t \<noteq> i) (waiting s)"
    "in_flight s' = in_flight s @ [i]" "summaries s' = summaries s"
    "\<exists>chunk. (i, chunk) \<in> set (waiting s) \<and> calls s' = calls s @ [chat_request w chunk]"
    "signals s' = signals s @
       [Output (lit ''Processing chunk '' @ str_nat (i + 1) @ lit ''/'' @ str_nat n @ lit ''...'')]"
proof -
  from assms obtain chunk where m: "map_of (waiting s) i = Some chunk" and p: "sem s \<noteq> 0"
    by (auto simp: enter_def split: option.splits if_splits)
  from m have c: "(i, chunk) \<in> set (waiting s)" by (rule map_of_SomeD)
  then show "i \<in> fst ` set (waiting s)" by force
  show "0 < sem s" using p by simp
  from assms m p show "sem s' = sem s - 1"
    "waiting s' = filter (\<lambda>t. fst t \<noteq> i) (waiting s)"
    "in_flight s' = in_flight s @ [i]" "summaries s' = summaries s"
    "signals s' = signals s @
       [Output (lit ''Processing chunk '' @ str_nat (i + 1) @ lit ''/'' @ str_nat n @ lit ''...'')]"
    by (auto simp: enter_def)
  from assms m p c show
    "\<exists>chunk. (i, chunk) \<in> set (waiting s) \<and> calls s' = calls s @ [chat_request w chunk]"
    by (auto simp: enter_def)
qed

lemma return_fields:
  assumes "return n reply i s = Some s'"
  shows "i \<in> set (in_flight s)" "sem s' = sem s + 1" "waiting s' = waiting s"
    "in_flight s' = removeAll i (in_flight s)"
    "summaries s' = summaries s @ [contribution reply i]" "calls s' = calls s"
    "signals s' = signals s @
       [if succeeded reply i then Progress (progress_value i n)
        else Output (contribution reply i)]"
    "handled reply i"
proof -
  from assms show i: "i \<in> set (in_flight s)"
    by (auto simp: return_def split: if_splits)
  with assms show "sem s' = sem s + 1" "waiting s' = waiting s"
    "in_flight s' = removeAll i (in_flight s)"
    "summaries s' = summaries s @ [contribution reply i]" "calls s' = calls s"
    "signals s' = signals s @
       [if succeeded reply i then Progress (progress_value i n)
        else Output (contribution reply i)]"
    "handled reply i"
    by (auto simp: return_def contribution_def succeeded_def handled_def Let_def
        split: outcome.splits)
qed

lemma enter_consistent:
  assumes c: "consistent n reply s D" and e: "enter w n i s = Some s'"
  shows "consistent n reply s' D"
proof -
  note f = enter_fields [OF e]
  have 1: "distinct (map fst (waiting s'))"
    using c f(4) by (simp add: consistent_def distinct_map_filter)
  have 2: "distinct (in_flight s')"
    using c f(1,5) by (auto simp: consistent_def)
  have 3: "fst ` set (waiting s') = fst ` set (waiting s) - {i}"
    unfolding f(4) by (rule fst_filter_ne)
  have 4: "set (in_flight s') = insert i (set (in_flight s))"
    using f(5) by simp
  have 5: "fst ` set (waiting s') \<inter> set (in_flight s') = {}"
    using c unfolding 3 4 consistent_def by auto
  have 6: "fst ` set (waiting s') \<inter> set D = {}" "set (in_flight s') \<inter> set D = {}"
    using c f(1) unfolding 3 4 consistent_def by auto
  have 7: "fst ` set (waiting s') \<union> set (in_flight s') \<union> set D = {0..<n}"
    using c f(1) unfolding 3 4 consistent_def by auto
  have 8: "sem s' + length (in_flight s') = 2"
    using c f(2,3,5) by (simp add: consistent_def)
  have 9: "summaries s' = map (contribution reply) D"
    using c f(6) by (simp add: consistent_def)
  have 10: "length (calls s') = length (in_flight s') + length D"
    using c f(5,7) by (auto simp: consistent_def)
  show ?thesis
    using c 1 2 5 6 7 8 9 10 unfolding consistent_def by simp
qed

lemma return_consistent:
  assumes c: "consistent n reply s D" and e: "return n reply i s = Some s'"
  shows "consistent n reply s' (D @ [i])"
proof -
  note f = return_fields [OF e]
  have d: "distinct (in_flight s)" using c by (simp add: consistent_def)
  have len: "length (in_flight s') + 1 = length (in_flight s)"
    using d f(1,4) by (induction "in_flight s" arbitrary: s s') (auto simp: distinct_remove1_removeAll[symmetric] length_remove1 intro: Suc_pred length_pos_if_in_set)
  have 2: "distinct (in_flight s')"
    using d f(4) by (simp add: distinct_removeAll)
  have 4: "set (in_flight s') = set (in_flight s) - {i}"
    using f(4) by simp
  have 1: "distinct (D @ [i])"
    using c f(1) by (auto simp: consistent_def)
  have 5: "fst ` set (waiting s') \<inter> set (in_flight s') = {}"
    using c f(3) unfolding 4 consistent_def by auto
  have 6: "fst ` set (waiting s') \<inter> set (D @ [i]) = {}" "set (in_flight s') \<inter> set (D @ [i]) = {}"
    using c f(1,3) unfolding 4 consistent_def by auto
  have 7: "fst ` set (waiting s') \<union> set (in_flight s') \<union> set (D @ [i]) = {0..<n}"
    using c f(1,3) unfolding 4 consistent_def by auto
  have 8: "sem s' + length (in_flight s') = 2"
    using c f(2) len by (simp add: consistent_def)
  have 9: "summaries s' = map (contribution reply) (D @ [i])"
    using c f(5) by (simp add: consistent_def)
  have 10: "length (calls s') = length (in_flight s') + length (D @ [i])"
    using c f(6) len by (simp add: consistent_def)
  show ?thesis
    using c f(3) 1 2 5 6 7 8 9 10 unfolding consistent_def by simp
qed


lemma exec_consistent:
  "consistent n reply s D \<Longrightarrow> exec w n reply tr s = Some s' \<Longrightarrow>
   consistent n reply s' (D @ completion_order tr)"
proof (induction tr arbitrary: s D)
  case Nil
  then show ?case by simp
next
  case (Cons e es)
  from Cons.prems(2) obtain s1
    where s1: "step w n reply e s = Some s1" and r: "exec w n reply es s1 = Some s'"
    by (auto split: option.splits)
  show ?case
  proof (cases e)
    case (Enter i)
    with s1 Cons.prems(1) have "consistent n reply s1 D"
      by (auto intro: enter_consistent)
    from Cons.IH [OF this r] Enter show ?thesis by simp
  next
    case (Return i)
    with s1 Cons.prems(1) have "consistent n reply s1 (D @ [i])"
      by (auto intro: return_consistent)
    from Cons.IH [OF this r] Return show ?thesis by simp
  qed
qed

lemma reachable_consistent:
  assumes "exec w (length chunks) reply tr (start chunks) = Some s"
  shows "consistent (length chunks) reply s (completion_order tr)"
  using exec_consistent [OF consistent_start assms] by simp

lemma exec_append:
  "exec w n reply (tr1 @ tr2) s =
     (case exec w n reply tr1 s of None \<Rightarrow> None | Some s1 \<Rightarrow> exec w n reply tr2 s1)"
  by (induction tr1 arbitrary: s) (auto split: option.splits)

lemma progress_values_append:
  "progress_values (xs @ ys) = progress_values xs @ progress_values ys"
  by (induction xs rule: progress_values.induct) auto

lemma step_progress:
  assumes "step w n reply e s = Some s'"
  shows "progress_values (signals s') =
         progress_values (signals s) @
         map (\<lambda>i. progress_value i n) (filter (succeeded reply) (completion_order [e]))"
proof (cases e)
  case (Enter i)
  with assms have "enter w n i s = Some s'" by simp
  from enter_fields(8) [OF this] Enter show ?thesis
    by (simp add: progress_values_append)
next
  case (Return i)
  with assms have "return n reply i s = Some s'" by simp
  from return_fields(7) [OF this] Return show ?thesis
    by (simp add: progress_values_append)
qed

lemma exec_progress:
  "exec w n reply tr s = Some s' \<Longrightarrow>
   progress_values (signals s') =
     progress_values (signals s) @
     map (\<lambda>i. progress_value i n) (filter (succeeded reply) (completion_order tr))"
proof (induction tr arbitrary: s)
  case Nil
  then show ?case by simp
next
  case (Cons e es)
  from Cons.prems obtain s1
    where s1: "step w n reply e s = Some s1" and r: "exec w n reply es s1 = Some s'"
    by (auto split: option.splits)
  have "completion_order (e # es) = completion_order [e] @ completion_order es"
    by (cases e) simp_all
  with Cons.IH [OF r] step_progress [OF s1] show ?case by simp
qed

lemma step_calls:
  assumes "step w n reply e s = Some s'"
    and "\<forall>q\<in>set (calls s). \<exists>c. q = chat_request w c"
  shows "\<forall>q\<in>set (calls s'). \<exists>c. q = chat_request w c"
proof (cases e)
  case (Enter i)
  with assms have "enter w n i s = Some s'" by simp
  from enter_fields(7) [OF this] assms(2) show ?thesis by auto
next
  case (Return i)
  with assms have "return n reply i s = Some s'" by simp
  from return_fields(6) [OF this] assms(2) show ?thesis by simp
qed

lemma exec_calls:
  "exec w n reply tr s = Some s' \<Longrightarrow> \<forall>q\<in>set (calls s). \<exists>c. q = chat_request w c \<Longrightarrow>
   \<forall>q\<in>set (calls s'). \<exists>c. q = chat_request w c"
proof (induction tr arbitrary: s)
  case Nil
  then show ?case by simp
next
  case (Cons e es)
  from Cons.prems(1) obtain s1
    where s1: "step w n reply e s = Some s1" and r: "exec w n reply es s1 = Some s'"
    by (auto split: option.splits)
  from Cons.IH [OF r step_calls [OF s1 Cons.prems(2)]] show ?case .
qed

lemma process_chunks_requests:
  assumes "process_chunks w chunks reply tr = Some r" and "q \<in> set (requests r)"
  shows "\<exists>c. q = chat_request w c"
proof -
  from assms(1) obtain s where s: "exec w (length chunks) reply tr (start chunks) = Some s"
    and r: "requests r = calls s"
    by (auto simp: process_chunks_def split: option.splits if_splits)
  have "\<forall>q\<in>set (calls (start chunks)). \<exists>c. q = chat_request w c"
    by (simp add: start_def)
  from exec_calls [OF s this] r assms(2) show ?thesis by simp
qed

lemma finish_simps:
  "requests (finish r) = requests r" "result (finish r) = result r"
  "emitted (finish r) = emitted r @ [Finished (result r)]"
  by (simp_all add: finish_def)

lemma full_text_requests:
  "process_full_text w x r = Some z \<Longrightarrow> requests z = [chat_request w x]"
  by (auto simp: process_full_text_def Let_def split: outcome.splits)

lemma full_text_returns: "process_full_text w x r \<noteq> None \<longleftrightarrow> handled r0 i" if "r0 i = r"
  using that by (auto simp: process_full_text_def handled_def Let_def split: outcome.splits)

lemma run_requests:
  assumes "run w reply tr = Some r" and "q \<in> set (requests r)"
  shows "\<exists>c. q = chat_request w c"
proof -
  consider (full) x z where "process_full_text w x (reply 0) = Some z" "r = finish z"
    | (chunks) cs z where "process_chunks w cs reply tr = Some z" "r = finish z"
    | (fatal) "requests r = []"
    using assms(1) unfolding run_def
    by (auto split: pyval.splits if_splits simp: finish_simps)
  then show ?thesis
  proof cases
    case full
    with assms(2) show ?thesis by (auto simp: finish_simps full_text_requests)
  next
    case chunks
    with assms(2) process_chunks_requests show ?thesis by (auto simp: finish_simps)
  next
    case fatal
    with assms(2) show ?thesis by simp
  qed
qed

lemma length_filter_key:
  "distinct (map fst xs) \<Longrightarrow> i \<in> fst ` set xs \<Longrightarrow>
   Suc (length (filter (\<lambda>t. fst t \<noteq> i) xs)) = length xs"
proof (induction xs)
  case Nil
  then show ?case by simp
next
  case (Cons x xs)
  show ?case
  proof (cases "fst x = i")
    case True
    from Cons.prems(1) have "fst x \<notin> fst ` set xs" by simp
    with True have "\<forall>t\<in>set xs. fst t \<noteq> i" by (metis imageI)
    then have "filter (\<lambda>t. fst t \<noteq> i) xs = xs" by simp
    with True show ?thesis by simp
  next
    case False
    with Cons show ?thesis by auto
  qed
qed

lemma length_removeAll_distinct:
  "distinct xs \<Longrightarrow> i \<in> set xs \<Longrightarrow> Suc (length (removeAll i xs)) = length xs"
  by (induction xs) auto

lemma step_measure:
  assumes c: "consistent n reply s D" and st: "step w n reply e s = Some s'"
  shows "Suc (2 * length (waiting s') + length (in_flight s')) =
         2 * length (waiting s) + length (in_flight s)"
proof (cases e)
  case (Enter i)
  with st have e: "enter w n i s = Some s'" by simp
  note f = enter_fields [OF e]
  from c have "distinct (map fst (waiting s))" by (simp add: consistent_def)
  from length_filter_key [OF this f(1)] f(4,5) show ?thesis by simp
next
  case (Return i)
  with st have e: "return n reply i s = Some s'" by simp
  note f = return_fields [OF e]
  from c have "distinct (in_flight s)" by (simp add: consistent_def)
  from length_removeAll_distinct [OF this f(1)] f(3,4) show ?thesis by simp
qed

lemma step_consistent:
  assumes "consistent n reply s D" and "step w n reply e s = Some s'"
  shows "consistent n reply s' (D @ completion_order [e])"
  using assms by (cases e) (auto intro: enter_consistent return_consistent)

lemma exec_measure:
  "consistent n reply s D \<Longrightarrow> exec w n reply tr s = Some s' \<Longrightarrow>
   length tr + 2 * length (waiting s') + length (in_flight s') =
   2 * length (waiting s) + length (in_flight s)"
proof (induction tr arbitrary: s D)
  case Nil
  then show ?case by simp
next
  case (Cons e es)
  from Cons.prems(2) obtain s1
    where s1: "step w n reply e s = Some s1" and r: "exec w n reply es s1 = Some s'"
    by (auto split: option.splits)
  from Cons.IH [OF step_consistent [OF Cons.prems(1) s1] r]
    step_measure [OF Cons.prems(1) s1]
  show ?case by simp
qed

lemma schedule_length:
  assumes "exec w (length chunks) reply tr (start chunks) = Some s"
  shows "length tr + 2 * length (waiting s) + length (in_flight s) = 2 * length chunks"
  using exec_measure [OF consistent_start assms] by (simp add: start_def)

lemma return_handled:
  "i \<in> set (in_flight s) \<Longrightarrow> handled reply i \<Longrightarrow> return n reply i s \<noteq> None"
  by (simp add: return_def handled_def Let_def split: outcome.splits)

lemma no_deadlock:
  assumes c: "consistent n reply s D" and h: "\<forall>i<n. handled reply i"
    and stuck: "\<forall>ev. step w n reply ev s = None"
  shows "waiting s = [] \<and> in_flight s = []"
proof -
  have fl: "in_flight s = []"
  proof (rule ccontr)
    assume "in_flight s \<noteq> []"
    then have m: "hd (in_flight s) \<in> set (in_flight s)" by simp
    with c have "hd (in_flight s) \<in> {0..<n}" unfolding consistent_def by blast
    with h have "handled reply (hd (in_flight s))" by simp
    with m have "return n reply (hd (in_flight s)) s \<noteq> None"
      by (rule return_handled)
    with stuck [rule_format, of "Return (hd (in_flight s))"] show False by simp
  qed
  have "waiting s = []"
  proof (rule ccontr)
    assume ne: "waiting s \<noteq> []"
    then obtain i chunk rest where w: "waiting s = (i, chunk) # rest"
      by (cases "waiting s") auto
    from c fl have "sem s = 2" by (simp add: consistent_def)
    with w have "enter w n i s \<noteq> None"
      by (simp add: enter_def)
    with stuck [rule_format, of "Enter i"] show False by simp
  qed
  with fl show ?thesis by simp
qed

lemma finished_no_step:
  "waiting s = [] \<Longrightarrow> in_flight s = [] \<Longrightarrow> step w n reply ev s = None"
  by (cases ev) (simp_all add: enter_def return_def)

lemma can_finish:
  assumes "consistent n reply s D" and "\<forall>i<n. handled reply i"
  shows "\<exists>tr' s'. exec w n reply tr' s = Some s' \<and> waiting s' = [] \<and> in_flight s' = []"
  using assms
proof (induction "2 * length (waiting s) + length (in_flight s)" arbitrary: s D
    rule: less_induct)
  case less
  show ?case
  proof (cases "waiting s = [] \<and> in_flight s = []")
    case True
    then have "exec w n reply [] s = Some s \<and> waiting s = [] \<and> in_flight s = []" by simp
    then show ?thesis by blast
  next
    case False
    with no_deadlock [OF less.prems] have "\<not> (\<forall>ev. step w n reply ev s = None)" by blast
    then obtain ev s1 where st: "step w n reply ev s = Some s1" by auto
    note c1 = step_consistent [OF less.prems(1) st]
    from step_measure [OF less.prems(1) st]
    have "2 * length (waiting s1) + length (in_flight s1) <
          2 * length (waiting s) + length (in_flight s)" by simp
    from less.hyps [OF this c1 less.prems(2)] obtain tr' s'
      where t: "exec w n reply tr' s1 = Some s'" "waiting s' = []" "in_flight s' = []"
      by blast
    from st t(1) have "exec w n reply (ev # tr') s = Some s'" by simp
    with t(2,3) show ?thesis by blast
  qed
qed

lemma exec_handled:
  "exec w n reply tr s = Some s' \<Longrightarrow> i \<in> set (completion_order tr) \<Longrightarrow> handled reply i"
proof (induction tr arbitrary: s)
  case Nil
  then show ?case by simp
next
  case (Cons e es)
  from Cons.prems(1) obtain s1
    where s1: "step w n reply e s = Some s1" and r: "exec w n reply es s1 = Some s'"
    by (auto split: option.splits)
  show ?case
  proof (cases e)
    case (Enter j)
    with Cons.prems(2) have "i \<in> set (completion_order es)" by simp
    from Cons.IH [OF r this] show ?thesis .
  next
    case (Return j)
    with s1 have "return n reply j s = Some s1" by simp
    note h = return_fields(8) [OF this]
    from Return Cons.prems(2) have "i = j \<or> i \<in> set (completion_order es)" by auto
    with h Cons.IH [OF r] show ?thesis by blast
  qed
qed

lemma in_join_sublist: "x \<in> set xs \<Longrightarrow> sublist x (join sep xs)"
proof (induction sep xs rule: join.induct)
  case (1 sep)
  then show ?case by simp
next
  case (2 sep y)
  then show ?case by simp
next
  case (3 sep a b ys)
  show ?case
  proof (cases "x = a")
    case True
    then show ?thesis by simp
  next
    case False
    with 3 have "sublist x (join sep (b # ys))" by simp
    then obtain ps ss where "join sep (b # ys) = ps @ x @ ss"
      by (auto simp: sublist_def)
    then have "join sep (a # b # ys) = (a @ sep @ ps) @ x @ ss" by simp
    then show ?thesis unfolding sublist_def by blast
  qed
qed

lemma complete_order:
  assumes c: "consistent n reply s D" and "waiting s = []" and "in_flight s = []"
  shows "mset D = mset [0..<n]" and "summaries s = map (contribution reply) D"
proof -
  from c assms(2,3) have "distinct D" "set D = {0..<n}"
    by (simp_all add: consistent_def)
  then show "mset D = mset [0..<n]"
    using set_eq_iff_mset_eq_distinct [of D "[0..<n]"] by simp
  from c show "summaries s = map (contribution reply) D"
    by (simp add: consistent_def)
qed

lemma process_chunks_result:
  assumes "process_chunks w chunks reply tr = Some r"
  shows "result r = join (separator w) (map (contribution reply) (completion_order tr))"
    and "mset (completion_order tr) = mset [0..<length chunks]"
    and "progress_values (emitted r) =
           map (\<lambda>i. progress_value i (length chunks))
               (filter (succeeded reply) (completion_order tr))"
proof -
  from assms obtain s where s: "exec w (length chunks) reply tr (start chunks) = Some s"
    and d: "waiting s = []" "in_flight s = []"
    and r: "r = \<lparr>result = join (separator w) (summaries s), emitted = signals s,
                  requests = calls s\<rparr>"
    by (auto simp: process_chunks_def split: option.splits if_splits)
  note c = reachable_consistent [OF s]
  from complete_order [OF c d] r
  show "result r = join (separator w) (map (contribution reply) (completion_order tr))"
    and "mset (completion_order tr) = mset [0..<length chunks]"
    by simp_all
  from exec_progress [OF s] r
  show "progress_values (emitted r) =
           map (\<lambda>i. progress_value i (length chunks))
               (filter (succeeded reply) (completion_order tr))"
    by (simp add: start_def)
qed

text \<open>
  Every schedule of a request whose calls all return or raise exceptions that the
  handler catches can be continued to one under which \<open>process_chunks\<close> returns.
\<close>

lemma process_chunks_continues:
  assumes ex: "exec w (length chunks) reply tr (start chunks) = Some s"
    and h: "\<forall>i<length chunks. handled reply i"
  shows "\<exists>tr' r. process_chunks w chunks reply (tr @ tr') = Some r"
proof -
  from can_finish [OF reachable_consistent [OF ex] h, of w] obtain tr' s'
    where t: "exec w (length chunks) reply tr' s = Some s'" "waiting s' = []"
      "in_flight s' = []"
    by blast
  from ex t(1) have "exec w (length chunks) reply (tr @ tr') (start chunks) = Some s'"
    by (simp add: exec_append)
  with t(2,3) have "process_chunks w chunks reply (tr @ tr') \<noteq> None"
    by (simp add: process_chunks_def)
  then show ?thesis by auto
qed

text \<open>
  A request with a call whose exception no handler catches has no schedule under which
  \<open>process_chunks\<close> returns.
\<close>

lemma aborted_no_report:
  assumes "i < length chunks" and "reply i = Aborted"
  shows "process_chunks w chunks reply tr = None"
proof (rule ccontr)
  assume "process_chunks w chunks reply tr \<noteq> None"
  then obtain r where r: "process_chunks w chunks reply tr = Some r" by auto
  then obtain s where s: "exec w (length chunks) reply tr (start chunks) = Some s"
    by (auto simp: process_chunks_def split: option.splits)
  from process_chunks_result(2) [OF r] have "set (completion_order tr) = {0..<length chunks}"
    by (metis mset_eq_setD set_upt)
  with assms(1) have "i \<in> set (completion_order tr)" by simp
  from exec_handled [OF s this] assms(2) show False by (simp add: handled_def)
qed

lemma process_chunks_raises_no_report:
  assumes "process_chunks_raises w chunks reply tr"
  shows "process_chunks w chunks reply (tr @ tr') = None"
proof -
  from assms obtain s i where s: "exec w (length chunks) reply tr (start chunks) = Some s"
    and i: "i \<in> set (in_flight s)" "reply i = Aborted"
    by (auto simp: process_chunks_raises_def list_ex_iff split: option.splits)
  from reachable_consistent [OF s] i(1) have "i \<in> {0..<length chunks}"
    unfolding consistent_def by blast
  then have "i < length chunks" by simp
  then show ?thesis using i(2) by (rule aborted_no_report)
qed

lemma run_raises_no_report: "run_raises w reply tr \<Longrightarrow> run w reply (tr @ tr') = None"
  by (auto simp: run_raises_def run_def process_full_text_def
      process_chunks_raises_no_report split: pyval.splits if_splits)

subsection \<open>Concrete schedules\<close>

lemma progress_value_of_two: "progress_value 0 2 = 50" "progress_value (Suc 0) 2 = 100"
  by code_simp+

lemma str_nat_Suc_Suc_0: "str_nat (Suc (Suc 0)) = str_nat 2"
  by (simp add: numeral_2_eq_2)

lemma exec_both_entered:
  "exec w 2 demo_reply [Enter 0, Enter 1] (start [c0, c1]) =
     Some \<lparr>sem = 0, waiting = [], in_flight = [0, 1], summaries = [],
           signals = [Output (lit ''Split into '' @ str_nat 2 @ lit '' chunks for processing...''),
                      Output (lit ''Processing chunk '' @ str_nat 1 @ lit ''/'' @ str_nat 2 @ lit ''...''),
                      Output (lit ''Processing chunk '' @ str_nat 2 @ lit ''/'' @ str_nat 2 @ lit ''...'')],
           calls = [chat_request w c0, chat_request w c1]\<rparr>"
  by (simp add: start_def enter_def str_nat_Suc_Suc_0)

lemma exec_in_order:
  "exec w 2 demo_reply [Enter 0, Enter 1, Return 0, Return 1] (start [c0, c1]) =
     Some \<lparr>sem = 2, waiting = [], in_flight = [], summaries = [lit ''A'', lit ''B''],
           signals = [Output (lit ''Split into '' @ str_nat 2 @ lit '' chunks for processing...''),
                      Output (lit ''Processing chunk '' @ str_nat 1 @ lit ''/'' @ str_nat 2 @ lit ''...''),
                      Output (lit ''Processing chunk '' @ str_nat 2 @ lit ''/'' @ str_nat 2 @ lit ''...''),
                      Progress 50, Progress 100],
           calls = [chat_request w c0, chat_request w c1]\<rparr>"
  by (simp add: start_def enter_def return_def demo_reply_def progress_value_of_two
        str_nat_Suc_Suc_0)

lemma exec_swapped:
  "exec w 2 demo_reply [Enter 0, Enter 1, Return 1, Return 0] (start [c0, c1]) =
     Some \<lparr>sem = 2, waiting = [], in_flight = [], summaries = [lit ''B'', lit ''A''],
           signals = [Output (lit ''Split into '' @ str_nat 2 @ lit '' chunks for processing...''),
                      Output (lit ''Processing chunk '' @ str_nat 1 @ lit ''/'' @ str_nat 2 @ lit ''...''),
                      Output (lit ''Processing chunk '' @ str_nat 2 @ lit ''/'' @ str_nat 2 @ lit ''...''),
                      Progress 100, Progress 50],
           calls = [chat_request w c0, chat_request w c1]\<rparr>"
  by (simp add: start_def enter_def return_def demo_reply_def progress_value_of_two
        str_nat_Suc_Suc_0)

lemma third_task_waits:
  "exec w 3 reply [Enter 0, Enter 1, Enter 2] (start [c0, c1, c2]) = None"
  by (simp add: start_def enter_def)

lemma separator_demo_brief: "separator demo_brief = [10, 10]"
  using prompt_keys_distinct by (simp add: separator_def demo_brief_def)

lemma process_chunks_in_order:
  "process_chunks demo_brief [c0, c1] demo_reply [Enter 0, Enter 1, Return 0, Return 1] =
     Some \<lparr>result = lit ''A'' @ [10, 10] @ lit ''B'',
           emitted = [Output (lit ''Split into '' @ str_nat 2 @ lit '' chunks for processing...''),
                      Output (lit ''Processing chunk '' @ str_nat 1 @ lit ''/'' @ str_nat 2 @ lit ''...''),
                      Output (lit ''Processing chunk '' @ str_nat 2 @ lit ''/'' @ str_nat 2 @ lit ''...''),
                      Progress 50, Progress 100],
           requests = [chat_request demo_brief c0, chat_request demo_brief c1]\<rparr>"
proof -
  have n: "length [c0, c1] = 2" by simp
  show ?thesis
    unfolding process_chunks_def n exec_in_order
    by (simp add: separator_demo_brief)
qed

lemma process_chunks_swapped:
  "process_chunks demo_brief [c0, c1] demo_reply [Enter 0, Enter 1, Return 1, Return 0] =
     Some \<lparr>result = lit ''B'' @ [10, 10] @ lit ''A'',
           emitted = [Output (lit ''Split into '' @ str_nat 2 @ lit '' chunks for processing...''),
                      Output (lit ''Processing chunk '' @ str_nat 1 @ lit ''/'' @ str_nat 2 @ lit ''...''),
                      Output (lit ''Processing chunk '' @ str_nat 2 @ lit ''/'' @ str_nat 2 @ lit ''...''),
                      Progress 100, Progress 50],
           requests = [chat_request demo_brief c0, chat_request demo_brief c1]\<rparr>"
proof -
  have n: "length [c0, c1] = 2" by simp
  show ?thesis
    unfolding process_chunks_def n exec_swapped
    by (simp add: separator_demo_brief)
qed


lemma run_demo_brief:
  "run demo_brief demo_reply tr =
     map_option finish (process_chunks demo_brief [PStr (lit ''x''), PStr (lit ''y'')] demo_reply tr)"
  by (simp add: run_def demo_brief_def)

subsection \<open>The concurrency cap\<close>



subsection \<open>The final join\<close>




subsection \<open>The order of the final text\<close>

text \<open>
  C1, as the code has it. The two units of a request complete in index order under one
  schedule and in the other order under a second one; the indices and the replies are
  the same, and the final texts differ.
\<close>

theorem completion_order_changes_final_text:
  "map_option result
     (process_chunks demo_brief [PStr (lit ''x''), PStr (lit ''y'')] demo_reply
        [Enter 0, Enter 1, Return 0, Return 1]) = Some (lit ''A'' @ [10, 10] @ lit ''B'') \<and>
   map_option result
     (process_chunks demo_brief [PStr (lit ''x''), PStr (lit ''y'')] demo_reply
        [Enter 0, Enter 1, Return 1, Return 0]) = Some (lit ''B'' @ [10, 10] @ lit ''A'') \<and>
   lit ''A'' @ [10, 10] @ lit ''B'' \<noteq> lit ''B'' @ [10, 10] @ lit ''A''"
  unfolding process_chunks_in_order process_chunks_swapped
  by (simp add: lit_def)

text \<open>
  C1, amended. The final text of a multi-unit request is the join of the unit results in
  the order in which the calls completed. Two schedules under which the units complete in
  the same order give the same final text, and a schedule under which they complete in
  index order gives the join in index order.
\<close>

theorem final_text_follows_completion_order:
  assumes "process_chunks w chunks reply tr = Some r"
  shows "result r = join (separator w) (map (contribution reply) (completion_order tr)) \<and>
         (completion_order tr = [0..<length chunks] \<longrightarrow>
            result r = join (separator w) (map (contribution reply) [0..<length chunks])) \<and>
         (\<forall>tr' r'. process_chunks w chunks reply tr' = Some r' \<longrightarrow>
            completion_order tr' = completion_order tr \<longrightarrow> result r' = result r)"
proof -
  have "result r' = result r"
    if "process_chunks w chunks reply tr' = Some r'"
      and "completion_order tr' = completion_order tr" for tr' r'
    using process_chunks_result(1) [OF that(1)] process_chunks_result(1) [OF assms] that(2)
    by simp
  with process_chunks_result(1) [OF assms] show ?thesis by simp
qed

theorem final_text_follows_completion_order_witness:
  "completion_order [Enter 0, Enter 1, Return 0, Return 1] =
     [0..<length [PStr (lit ''x''), PStr (lit ''y'')]] \<and>
   map_option result
     (process_chunks demo_brief [PStr (lit ''x''), PStr (lit ''y'')] demo_reply
        [Enter 0, Enter 1, Return 0, Return 1]) =
     Some (join (separator demo_brief) (map (contribution demo_reply) [0, 1])) \<and>
   join (separator demo_brief) (map (contribution demo_reply) [0, 1]) =
     lit ''A'' @ [10, 10] @ lit ''B''"
proof -
  note e = process_chunks_in_order [of "PStr (lit ''x'')" "PStr (lit ''y'')"]
  have u: "[0..<length [PStr (lit ''x''), PStr (lit ''y'')]] = [0, 1]"
    by (simp add: upt_rec)
  have c: "completion_order [Enter 0, Enter 1, Return 0, Return 1] = [0, 1]"
    by simp
  from final_text_follows_completion_order [OF e] c
  have "lit ''A'' @ [10, 10] @ lit ''B'' =
        join (separator demo_brief) (map (contribution demo_reply) [0, 1])"
    by simp
  then show ?thesis unfolding e u c by simp
qed

subsection \<open>Sampling temperature and unknown content types\<close>

text \<open>
  C8. Every call that a run issues, on either path, carries the temperature 0.4 if the
  content type is \<open>summary\<close> or \<open>brief\<close>, and 0.7 if it is \<open>qna\<close>,
  \<open>questions\<close> or \<open>professor\<close>.
\<close>

theorem temperature_by_type:
  assumes "run w reply tr = Some r" and "q \<in> set (requests r)"
  shows "(prompt_type w = lit ''summary'' \<or> prompt_type w = lit ''brief'' \<longrightarrow>
            req_temperature q = 4 / 10) \<and>
         (prompt_type w = lit ''qna'' \<or> prompt_type w = lit ''questions'' \<or>
          prompt_type w = lit ''professor'' \<longrightarrow> req_temperature q = 7 / 10)"
proof -
  from run_requests [OF assms] obtain c where "q = chat_request w c" ..
  then have "req_temperature q = temperature w" by (simp add: chat_request_def)
  then show ?thesis
    using prompt_keys_distinct lit_summary_ne_professor
    by (auto simp: temperature_def)
qed

lemma run_full_text:
  "text_data w = PStr text \<Longrightarrow> \<not> is_chunked w \<Longrightarrow>
   run w reply tr = map_option finish (process_full_text w (PStr text) (reply 0))"
  by (simp add: run_def)

theorem temperature_by_type_witness:
  "run demo_brief demo_reply [Enter 0, Enter 1, Return 0, Return 1] \<noteq> None \<and>
   chat_request demo_brief (PStr (lit ''x'')) \<in>
     set (requests (the (run demo_brief demo_reply [Enter 0, Enter 1, Return 0, Return 1]))) \<and>
   prompt_type demo_brief = lit ''brief'' \<and>
   req_temperature (chat_request demo_brief (PStr (lit ''x''))) = 4 / 10 \<and>
   run demo_professor demo_reply [] \<noteq> None \<and>
   chat_request demo_professor (PStr (lit ''What is a monad?'')) \<in>
     set (requests (the (run demo_professor demo_reply []))) \<and>
   prompt_type demo_professor = lit ''professor'' \<and>
   req_temperature (chat_request demo_professor (PStr (lit ''What is a monad?''))) = 7 / 10"
proof -
  let ?tr = "[Enter 0, Enter 1, Return 0, Return 1]"
  let ?R = "the (run demo_brief demo_reply ?tr)"
  let ?q = "chat_request demo_brief (PStr (lit ''x''))"
  have r: "run demo_brief demo_reply ?tr = Some ?R"
    unfolding run_demo_brief process_chunks_in_order by simp
  have q: "?q \<in> set (requests ?R)"
    unfolding run_demo_brief process_chunks_in_order by (simp add: finish_simps)
  have b: "prompt_type demo_brief = lit ''brief''" by (simp add: demo_brief_def)
  from temperature_by_type [OF r q] b have 1: "req_temperature ?q = 4 / 10" by blast
  let ?P = "the (run demo_professor demo_reply [])"
  let ?p = "chat_request demo_professor (PStr (lit ''What is a monad?''))"
  have d: "text_data demo_professor = PStr (lit ''What is a monad?'')"
    "\<not> is_chunked demo_professor" "prompt_type demo_professor = lit ''professor''"
    by (simp_all add: demo_professor_def)
  note f = run_full_text [OF d(1,2), of demo_reply "[]"]
  have r': "run demo_professor demo_reply [] = Some ?P"
    unfolding f by (simp add: process_full_text_def demo_reply_def)
  have q': "?p \<in> set (requests ?P)"
    unfolding f by (simp add: finish_simps process_full_text_def demo_reply_def)
  from temperature_by_type [OF r' q'] d(3) have 2: "req_temperature ?p = 7 / 10" by blast
  from r have r0: "run demo_brief demo_reply ?tr \<noteq> None" by (metis option.distinct(1))
  from r' have r0': "run demo_professor demo_reply [] \<noteq> None" by (metis option.distinct(1))
  from r0 q b 1 r0' q' d(3) 2 show ?thesis by blast
qed

text \<open>
  What a run does but for the requests it issues does not depend on the worker's
  prompts: two workers take the same steps under the same schedule and replies, and
  their dispatch states differ in \<open>calls\<close> only.
\<close>

lemma step_sim:
  assumes "t\<lparr>calls := calls s\<rparr> = s"
  shows "rel_option (\<lambda>a b. b\<lparr>calls := calls a\<rparr> = a)
           (step w n reply e s) (step w' n reply e t)"
proof -
  from assms obtain c where t: "t = s\<lparr>calls := c\<rparr>"
    by (cases s, cases t) auto
  show ?thesis
  proof (cases e)
    case (Enter i)
    then show ?thesis unfolding t
      by (simp add: enter_def Let_def split: option.splits)
  next
    case (Return i)
    then show ?thesis unfolding t
      by (simp add: return_def Let_def split: outcome.splits)
  qed
qed

lemma exec_sim:
  "t\<lparr>calls := calls s\<rparr> = s \<Longrightarrow>
   rel_option (\<lambda>a b. b\<lparr>calls := calls a\<rparr> = a)
     (exec w n reply tr s) (exec w' n reply tr t)"
proof (induction tr arbitrary: s t)
  case Nil
  then show ?case by simp
next
  case (Cons e es)
  note st = step_sim [OF Cons.prems, of w n reply e w']
  show ?case
  proof (cases "step w n reply e s")
    case None
    with st have "step w' n reply e t = None" by simp
    with None show ?thesis by simp
  next
    case (Some s1)
    with st obtain t1 where t1: "step w' n reply e t = Some t1" "t1\<lparr>calls := calls s1\<rparr> = s1"
      by (auto simp: option_rel_Some1)
    from Cons.IH [OF t1(2)] Some t1(1) show ?thesis by simp
  qed
qed

lemma sim_fields:
  assumes "b\<lparr>calls := calls a\<rparr> = a"
  shows "waiting b = waiting a" "in_flight b = in_flight a" "summaries b = summaries a"
    "signals b = signals a"
proof -
  from assms obtain c where "b = a\<lparr>calls := c\<rparr>" by (cases a, cases b) auto
  then show "waiting b = waiting a" "in_flight b = in_flight a" "summaries b = summaries a"
    "signals b = signals a"
    by simp_all
qed

lemma exec_start_sim:
  obtains (none) "exec w n reply tr (start chunks) = None"
      "exec w' n reply tr (start chunks) = None"
  | (some) a b where "exec w n reply tr (start chunks) = Some a"
      "exec w' n reply tr (start chunks) = Some b"
      "waiting b = waiting a" "in_flight b = in_flight a" "summaries b = summaries a"
      "signals b = signals a"
proof -
  have r: "rel_option (\<lambda>a b. b\<lparr>calls := calls a\<rparr> = a)
     (exec w n reply tr (start chunks)) (exec w' n reply tr (start chunks))"
    by (rule exec_sim) simp
  show ?thesis
  proof (cases "exec w n reply tr (start chunks)")
    case None
    with r have "exec w' n reply tr (start chunks) = None" by simp
    with None show ?thesis by (rule none)
  next
    case (Some a)
    with r obtain b where b: "exec w' n reply tr (start chunks) = Some b"
      "b\<lparr>calls := calls a\<rparr> = a"
      by (auto simp: option_rel_Some1)
    from Some b(1) sim_fields [OF b(2)] show ?thesis by (rule some)
  qed
qed

lemma process_chunks_sim:
  assumes "separator w = separator w'"
  shows "map_option result (process_chunks w chunks reply tr) =
         map_option result (process_chunks w' chunks reply tr)"
    and "map_option emitted (process_chunks w chunks reply tr) =
         map_option emitted (process_chunks w' chunks reply tr)"
  using assms
  by (cases rule: exec_start_sim [of w "length chunks" reply tr chunks w'];
      simp add: process_chunks_def)+

lemma process_chunks_raises_sim:
  "process_chunks_raises w chunks reply tr = process_chunks_raises w' chunks reply tr"
  by (cases rule: exec_start_sim [of w "length chunks" reply tr chunks w'];
      simp add: process_chunks_raises_def)

lemma run_sim:
  assumes "prompt_type w \<noteq> lit ''summary''" and "x \<noteq> lit ''summary''"
  shows "map_option result (run w reply tr) =
         map_option result (run (w\<lparr>prompt_type := x\<rparr>) reply tr)"
    and "map_option emitted (run w reply tr) =
         map_option emitted (run (w\<lparr>prompt_type := x\<rparr>) reply tr)"
    and "run_raises w reply tr = run_raises (w\<lparr>prompt_type := x\<rparr>) reply tr"
proof -
  let ?w = "w\<lparr>prompt_type := x\<rparr>"
  from assms have sep: "separator w = separator ?w"
    by (simp add: separator_def)
  have fin: "map_option result (map_option finish a) = map_option result (map_option finish b) \<and>
             map_option emitted (map_option finish a) = map_option emitted (map_option finish b)"
    if "map_option result a = map_option result b" "map_option emitted a = map_option emitted b"
    for a b :: "report option"
    using that by (cases a; cases b; simp add: finish_simps)
  have ft: "map_option result (process_full_text w c r) =
            map_option result (process_full_text ?w c r)"
    "map_option emitted (process_full_text w c r) =
            map_option emitted (process_full_text ?w c r)" for c r
    by (simp_all add: process_full_text_def Let_def split: outcome.splits)
  note pc = process_chunks_sim [OF sep, of _ reply tr]
  have both: "map_option result (run w reply tr) = map_option result (run ?w reply tr) \<and>
              map_option emitted (run w reply tr) = map_option emitted (run ?w reply tr)"
  proof (cases "text_data w")
    case (PStr t)
    show ?thesis
    proof (cases "is_chunked w")
      case True
      with PStr fin [OF pc, of "[PStr t]"] show ?thesis by (simp add: run_def)
    next
      case False
      with PStr fin [OF ft, of "PStr t" "reply 0"] show ?thesis by (simp add: run_def)
    qed
  next
    case (PList cs)
    with fin [OF pc, of cs] show ?thesis by (simp add: run_def)
  next
    case (PObj k)
    show ?thesis
    proof (cases "is_chunked w")
      case True
      with PObj fin [OF pc, of "[PObj k]"] show ?thesis by (simp add: run_def)
    next
      case False
      with PObj show ?thesis by (simp add: run_def)
    qed
  qed
  then show "map_option result (run w reply tr) = map_option result (run ?w reply tr)"
    and "map_option emitted (run w reply tr) = map_option emitted (run ?w reply tr)"
    by simp_all
  show "run_raises w reply tr = run_raises ?w reply tr"
    using process_chunks_raises_sim [of w _ reply tr ?w]
    by (simp add: run_raises_def split: pyval.splits)
qed

lemma run_chunks_of:
  "chunks_of w = Some chunks \<Longrightarrow>
   run w reply tr = map_option finish (process_chunks w chunks reply tr)"
  by (auto simp: chunks_of_def run_def split: pyval.splits if_splits)

lemma process_chunks_request_count:
  assumes "process_chunks w chunks reply tr = Some r"
  shows "length (requests r) = length chunks"
proof -
  from assms obtain s where s: "exec w (length chunks) reply tr (start chunks) = Some s"
    and d: "waiting s = []" "in_flight s = []"
    and r: "requests r = calls s"
    by (auto simp: process_chunks_def split: option.splits if_splits)
  note c = reachable_consistent [OF s]
  from complete_order(1) [OF c d] have "size (mset (completion_order tr)) = size (mset [0..<length chunks])"
    by simp
  then have "length (completion_order tr) = length chunks" by simp
  with c d r show ?thesis by (simp add: consistent_def)
qed

text \<open>
  C10. A request whose content type is none of the five known ones does not fail for that:
  the system prompt of every call it issues is the summary instruction, and the
  temperature is 0.7, not the 0.4 of a summary. A single-unit request returns the reply
  of its call as the result, or the error message of the handler if the call raises an
  exception of class \<open>Exception\<close>. Every schedule of a request that takes the chunked
  path, if each call returns or raises such an exception, can be continued to one under
  which \<open>run\<close> returns: the result is the join of the contributions with a blank
  line, each unit contributes once, and there is one request per unit. Under every
  schedule the result, the signals and the exceptions that leave \<open>run\<close> are those of
  the same request with the content type \<open>qna\<close>: the unknown type adds no failure.
\<close>

theorem unknown_type_falls_back:
  assumes "prompt_type w \<notin> set [lit ''summary'', lit ''brief'', lit ''qna'',
                                   lit ''questions'', lit ''professor'']"
  shows "build_prompt w = summary_prompt \<and> temperature w = 7 / 10 \<and>
         (\<forall>tr r q. run w reply tr = Some r \<longrightarrow> q \<in> set (requests r) \<longrightarrow>
            req_system q = summary_prompt \<and> req_temperature q = 7 / 10) \<and>
         (\<forall>text t. text_data w = PStr text \<and> \<not> is_chunked w \<and> reply 0 = Reply t \<longrightarrow>
            (\<exists>r. run w reply tr = Some r \<and> result r = t \<and>
                  requests r = [chat_request w (PStr text)])) \<and>
         (\<forall>text e. text_data w = PStr text \<and> \<not> is_chunked w \<and> reply 0 = Raised e \<longrightarrow>
            (\<exists>r. run w reply tr = Some r \<and>
                  result r = lit ''[ERROR] Failed to process text: '' @ e \<and>
                  requests r = [chat_request w (PStr text)])) \<and>
         (\<forall>chunks s. chunks_of w = Some chunks \<and> (\<forall>i<length chunks. handled reply i) \<and>
                      exec w (length chunks) reply tr (start chunks) = Some s \<longrightarrow>
            (\<exists>tr' r. run w reply (tr @ tr') = Some r \<and>
                  result r =
                    join [10, 10] (map (contribution reply) (completion_order (tr @ tr'))) \<and>
                  mset (completion_order (tr @ tr')) = mset [0..<length chunks] \<and>
                  length (requests r) = length chunks)) \<and>
         (\<forall>tr. map_option result (run w reply tr) =
                 map_option result (run (w\<lparr>prompt_type := lit ''qna''\<rparr>) reply tr) \<and>
               map_option emitted (run w reply tr) =
                 map_option emitted (run (w\<lparr>prompt_type := lit ''qna''\<rparr>) reply tr) \<and>
               run_raises w reply tr =
                 run_raises (w\<lparr>prompt_type := lit ''qna''\<rparr>) reply tr)"
proof -
  from assms have 1: "build_prompt w = summary_prompt"
    by (simp add: build_prompt_def base_prompt_cases)
  from assms have 2: "temperature w = 7 / 10"
    by (simp add: temperature_def)
  from assms have ns: "prompt_type w \<noteq> lit ''summary''" by simp
  have qs: "lit ''qna'' \<noteq> lit ''summary''" by (simp add: lit_def)
  have 3: "req_system q = summary_prompt \<and> req_temperature q = 7 / 10"
    if "run w reply tr = Some r" "q \<in> set (requests r)" for tr r q
  proof -
    from run_requests [OF that] obtain c where "q = chat_request w c" ..
    with 1 2 show ?thesis by (simp add: chat_request_def)
  qed
  have 4: "\<exists>r. run w reply tr = Some r \<and> result r = t \<and>
                requests r = [chat_request w (PStr text)]"
    if "text_data w = PStr text" "\<not> is_chunked w" "reply 0 = Reply t" for "text" t
    using run_full_text [OF that(1,2)] that(3)
    by (simp add: finish_simps process_full_text_def)
  have 5: "\<exists>r. run w reply tr = Some r \<and>
                result r = lit ''[ERROR] Failed to process text: '' @ e \<and>
                requests r = [chat_request w (PStr text)]"
    if "text_data w = PStr text" "\<not> is_chunked w" "reply 0 = Raised e" for "text" e
    using run_full_text [OF that(1,2)] that(3)
    by (simp add: finish_simps process_full_text_def Let_def)
  have 6: "\<exists>tr' r. run w reply (tr @ tr') = Some r \<and>
                  result r =
                    join [10, 10] (map (contribution reply) (completion_order (tr @ tr'))) \<and>
                  mset (completion_order (tr @ tr')) = mset [0..<length chunks] \<and>
                  length (requests r) = length chunks"
    if c: "chunks_of w = Some chunks" and h: "\<forall>i<length chunks. handled reply i"
      and ex: "exec w (length chunks) reply tr (start chunks) = Some s" for chunks s
  proof -
    from process_chunks_continues [OF ex h] obtain tr' z
      where z: "process_chunks w chunks reply (tr @ tr') = Some z" by blast
    have r: "run w reply (tr @ tr') = Some (finish z)"
      by (simp add: run_chunks_of [OF c] z)
    from ns have sep: "separator w = [10, 10]" by (simp add: separator_def)
    from process_chunks_result(1,2) [OF z] process_chunks_request_count [OF z] sep
    have "result (finish z) =
            join [10, 10] (map (contribution reply) (completion_order (tr @ tr'))) \<and>
          mset (completion_order (tr @ tr')) = mset [0..<length chunks] \<and>
          length (requests (finish z)) = length chunks"
      by (simp add: finish_simps)
    with r show ?thesis by blast
  qed
  note 7 = run_sim [OF ns qs, of reply]
  show ?thesis
  proof (intro conjI allI impI)
    show "build_prompt w = summary_prompt" by (rule 1)
    show "temperature w = 7 / 10" by (rule 2)
  next
    fix tr r q assume "run w reply tr = Some r" "q \<in> set (requests r)"
    from 3 [OF this] show "req_system q = summary_prompt" "req_temperature q = 7 / 10"
      by simp_all
  next
    fix "text" t assume "text_data w = PStr text \<and> \<not> is_chunked w \<and> reply 0 = Reply t"
    then show "\<exists>r. run w reply tr = Some r \<and> result r = t \<and>
                requests r = [chat_request w (PStr text)]"
      using 4 by blast
  next
    fix "text" e assume "text_data w = PStr text \<and> \<not> is_chunked w \<and> reply 0 = Raised e"
    then show "\<exists>r. run w reply tr = Some r \<and>
                result r = lit ''[ERROR] Failed to process text: '' @ e \<and>
                requests r = [chat_request w (PStr text)]"
      using 5 by blast
  next
    fix chunks s
    assume a: "chunks_of w = Some chunks \<and> (\<forall>i<length chunks. handled reply i) \<and>
            exec w (length chunks) reply tr (start chunks) = Some s"
    then have "chunks_of w = Some chunks" "\<forall>i<length chunks. handled reply i"
      "exec w (length chunks) reply tr (start chunks) = Some s"
      by simp_all
    then show "\<exists>tr' r. run w reply (tr @ tr') = Some r \<and>
                  result r =
                    join [10, 10] (map (contribution reply) (completion_order (tr @ tr'))) \<and>
                  mset (completion_order (tr @ tr')) = mset [0..<length chunks] \<and>
                  length (requests r) = length chunks"
      by (rule 6)
  next
    fix tr
    show "map_option result (run w reply tr) =
          map_option result (run (w\<lparr>prompt_type := lit ''qna''\<rparr>) reply tr)"
      by (rule 7(1))
    show "map_option emitted (run w reply tr) =
          map_option emitted (run (w\<lparr>prompt_type := lit ''qna''\<rparr>) reply tr)"
      by (rule 7(2))
    show "run_raises w reply tr = run_raises (w\<lparr>prompt_type := lit ''qna''\<rparr>) reply tr"
      by (rule 7(3))
  qed
qed

theorem unknown_type_falls_back_witness:
  "prompt_type demo_unknown = lit ''essay'' \<and>
   build_prompt demo_unknown = summary_prompt \<and> temperature demo_unknown = 7 / 10 \<and>
   text_data demo_unknown = PStr (lit ''Some text.'') \<and> demo_reply 0 = Reply (lit ''A'') \<and>
   (\<exists>r. run demo_unknown demo_reply [] = Some r \<and> result r = lit ''A'' \<and>
        requests r = [chat_request demo_unknown (PStr (lit ''Some text.''))] \<and>
        req_system (chat_request demo_unknown (PStr (lit ''Some text.''))) = summary_prompt \<and>
        req_temperature (chat_request demo_unknown (PStr (lit ''Some text.''))) = 7 / 10) \<and>
   prompt_type demo_unknown_chunks = lit ''essay'' \<and>
   chunks_of demo_unknown_chunks = Some [PStr (lit ''x''), PStr (lit ''y'')] \<and>
   handled demo_reply 0 \<and> handled demo_reply 1 \<and>
   exec demo_unknown_chunks 2 demo_reply [Enter 0, Enter 1]
     (start [PStr (lit ''x''), PStr (lit ''y'')]) \<noteq> None \<and>
   map_option result (run demo_unknown_chunks demo_reply [Enter 0, Enter 1, Return 0, Return 1]) =
     Some (lit ''A'' @ [10, 10] @ lit ''B'') \<and>
   map_option (\<lambda>r. length (requests r))
     (run demo_unknown_chunks demo_reply [Enter 0, Enter 1, Return 0, Return 1]) = Some 2 \<and>
   map_option result
     (run (demo_unknown_chunks\<lparr>prompt_type := lit ''qna''\<rparr>) demo_reply
        [Enter 0, Enter 1, Return 0, Return 1]) =
     Some (lit ''A'' @ [10, 10] @ lit ''B'')"
proof -
  have p: "prompt_type demo_unknown = lit ''essay''"
    and d: "text_data demo_unknown = PStr (lit ''Some text.'')" "\<not> is_chunked demo_unknown"
    by (simp_all add: demo_unknown_def)
  have u: "prompt_type demo_unknown \<notin> set [lit ''summary'', lit ''brief'', lit ''qna'',
                                   lit ''questions'', lit ''professor'']"
    unfolding p by (simp add: lit_def)
  have a: "demo_reply 0 = Reply (lit ''A'')" by (simp add: demo_reply_def)
  note t = unknown_type_falls_back [OF u, of demo_reply "[]"]
  from t d a obtain r where r: "run demo_unknown demo_reply [] = Some r" "result r = lit ''A''"
    "requests r = [chat_request demo_unknown (PStr (lit ''Some text.''))]"
    by blast
  then have "chat_request demo_unknown (PStr (lit ''Some text.'')) \<in> set (requests r)"
    by simp
  with t r(1) have "req_system (chat_request demo_unknown (PStr (lit ''Some text.''))) = summary_prompt"
    "req_temperature (chat_request demo_unknown (PStr (lit ''Some text.''))) = 7 / 10"
    by blast+
  with t p d a r have one: "prompt_type demo_unknown = lit ''essay'' \<and>
   build_prompt demo_unknown = summary_prompt \<and> temperature demo_unknown = 7 / 10 \<and>
   text_data demo_unknown = PStr (lit ''Some text.'') \<and> demo_reply 0 = Reply (lit ''A'') \<and>
   (\<exists>r. run demo_unknown demo_reply [] = Some r \<and> result r = lit ''A'' \<and>
        requests r = [chat_request demo_unknown (PStr (lit ''Some text.''))] \<and>
        req_system (chat_request demo_unknown (PStr (lit ''Some text.''))) = summary_prompt \<and>
        req_temperature (chat_request demo_unknown (PStr (lit ''Some text.''))) = 7 / 10)"
    by blast
  let ?cs = "[PStr (lit ''x''), PStr (lit ''y'')]"
  let ?w = demo_unknown_chunks
  let ?tr = "[Enter 0, Enter 1, Return 0, Return 1]"
  have n: "length ?cs = 2" by simp
  have pc: "prompt_type ?w = lit ''essay''" by (simp add: demo_unknown_chunks_def)
  have uc: "prompt_type ?w \<notin> set [lit ''summary'', lit ''brief'', lit ''qna'',
                                   lit ''questions'', lit ''professor'']"
    unfolding pc by (simp add: lit_def)
  have co: "chunks_of ?w = Some ?cs" by (simp add: chunks_of_def demo_unknown_chunks_def)
  have h: "handled demo_reply 0" "handled demo_reply 1"
    by (simp_all add: handled_def demo_reply_def)
  have hs: "\<forall>i<length ?cs. handled demo_reply i"
    by (simp add: handled_def demo_reply_def)
  note e = exec_in_order [of ?w "PStr (lit ''x'')" "PStr (lit ''y'')"]
  have e2: "exec ?w 2 demo_reply [Enter 0, Enter 1] (start ?cs) \<noteq> None"
    unfolding exec_both_entered by simp
  note tc = unknown_type_falls_back [OF uc, of demo_reply ?tr]
  from tc co hs e [folded n] obtain tr' r'
    where r': "run ?w demo_reply (?tr @ tr') = Some r'"
      "result r' = join [10, 10] (map (contribution demo_reply) (completion_order (?tr @ tr')))"
      "length (requests r') = length ?cs"
    by blast
  from r'(1) obtain s' where "exec ?w (length ?cs) demo_reply (?tr @ tr') (start ?cs) = Some s'"
    by (auto simp: run_chunks_of [OF co] process_chunks_def split: option.splits)
  from schedule_length [OF this] have tr': "tr' = []" by simp
  have c: "contribution demo_reply 0 = lit ''A''" "contribution demo_reply (Suc 0) = lit ''B''"
    by (simp_all add: contribution_def demo_reply_def)
  from r' have two: "map_option result (run ?w demo_reply ?tr) = Some (lit ''A'' @ [10, 10] @ lit ''B'')"
    "map_option (\<lambda>r. length (requests r)) (run ?w demo_reply ?tr) = Some 2"
    unfolding tr' by (simp_all add: c)
  from tc two(1) have three: "map_option result
     (run (?w\<lparr>prompt_type := lit ''qna''\<rparr>) demo_reply ?tr) =
     Some (lit ''A'' @ [10, 10] @ lit ''B'')"
    by simp
  from one pc co h e2 two three show ?thesis by simp
qed

subsection \<open>A failing unit\<close>

lemma run_list:
  "text_data w = PList chunks \<Longrightarrow>
   run w reply tr = map_option finish (process_chunks w chunks reply tr)"
  by (simp add: run_def)

lemma error_marker_prefix:
  "reply f = Raised e \<Longrightarrow> prefix (lit ''[ERROR]'') (contribution reply f)"
  by (simp add: contribution_def lit_def)

lemma progress_value_of_three: "progress_value 0 3 = 33" "progress_value 2 3 = 100"
  by code_simp+

lemma str_nat_Suc_Suc_Suc_0: "str_nat (Suc (Suc (Suc 0))) = str_nat 3"
  by (simp add: numeral_3_eq_3)

lemma exec_second_cancelled:
  "exec w 3 demo_cancelled [Enter 0, Enter 1] (start [c0, c1, c2]) =
     Some \<lparr>sem = 0, waiting = [(2, c2)], in_flight = [0, 1], summaries = [],
           signals = [Output (lit ''Split into '' @ str_nat 3 @ lit '' chunks for processing...''),
                      Output (lit ''Processing chunk '' @ str_nat 1 @ lit ''/'' @ str_nat 3 @ lit ''...''),
                      Output (lit ''Processing chunk '' @ str_nat 2 @ lit ''/'' @ str_nat 3 @ lit ''...'')],
           calls = [chat_request w c0, chat_request w c1]\<rparr>"
  by (simp add: start_def enter_def Let_def str_nat_Suc_Suc_0 str_nat_Suc_Suc_Suc_0)

text \<open>
  C4, as the code has it. Of three units the first and the third succeed and the call of
  the second raises \<open>asyncio.CancelledError\<close>, which is not an instance of
  \<open>Exception\<close>. With the first two calls in flight the exception leaves the task, the
  dispatcher and \<open>run\<close>: the handlers at lines 134 and 161 name \<open>Exception\<close>. No
  result is delivered, at this point of the schedule or at a later one.
\<close>

theorem uncaught_exception_escapes:
  "text_data demo_three = PList [PStr (lit ''x''), PStr (lit ''y''), PStr (lit ''z'')] \<and>
   demo_cancelled 1 = Aborted \<and>
   succeeded demo_cancelled 0 \<and> succeeded demo_cancelled 2 \<and>
   run_raises demo_three demo_cancelled [Enter 0, Enter 1] \<and>
   run demo_three demo_cancelled [Enter 0, Enter 1] = None \<and>
   run demo_three demo_cancelled [Enter 0, Enter 1, Return 1] = None \<and>
   run demo_three demo_cancelled [Enter 0, Enter 1, Return 0, Enter 2, Return 2] = None"
proof -
  let ?cs = "[PStr (lit ''x''), PStr (lit ''y''), PStr (lit ''z'')]"
  have n: "length ?cs = 3" by simp
  have td: "text_data demo_three = PList ?cs" by (simp add: demo_three_def)
  have c: "demo_cancelled 1 = Aborted" "succeeded demo_cancelled 0" "succeeded demo_cancelled 2"
    by (simp_all add: demo_cancelled_def succeeded_def)
  note e = exec_second_cancelled [of demo_three "PStr (lit ''x'')" "PStr (lit ''y'')" "PStr (lit ''z'')"]
  have "process_chunks_raises demo_three ?cs demo_cancelled [Enter 0, Enter 1]"
    unfolding process_chunks_raises_def n e by (simp add: demo_cancelled_def)
  then have r: "run_raises demo_three demo_cancelled [Enter 0, Enter 1]"
    by (simp add: run_raises_def td)
  from run_raises_no_report [OF r, of "[]"] run_raises_no_report [OF r, of "[Return 1]"]
    run_raises_no_report [OF r, of "[Return 0, Enter 2, Return 2]"]
  have "run demo_three demo_cancelled [Enter 0, Enter 1] = None"
    "run demo_three demo_cancelled [Enter 0, Enter 1, Return 1] = None"
    "run demo_three demo_cancelled [Enter 0, Enter 1, Return 0, Enter 2, Return 2] = None"
    by simp_all
  with td c r show ?thesis by simp
qed

text \<open>
  C4, amended. Take a multi-unit request in which the call of one unit raises an
  exception that is an instance of \<open>Exception\<close> and the calls of all the others return.
  No schedule of it has more than two steps per unit, a schedule that cannot go on has
  returned, and every schedule can be continued to one that returns: \<open>run\<close> delivers
  a result. In every result the part of the failing unit starts with \<open>[ERROR]\<close>, and
  the reply of every other unit is one of the joined parts, so that it stands in the
  final text as it was returned. If the exception of that unit is not an instance of
  \<open>Exception\<close> instead, no schedule returns, and once the call is in flight the
  exception leaves \<open>run\<close>.
\<close>

theorem one_failing_unit_is_contained:
  assumes td: "text_data w = PList chunks"
    and f: "f < length chunks" "reply f = Raised e"
    and ok: "\<forall>i<length chunks. i \<noteq> f \<longrightarrow> succeeded reply i"
    and ex: "exec w (length chunks) reply tr (start chunks) = Some s"
  shows "length tr \<le> 2 * length chunks \<and>
         ((\<forall>ev. step w (length chunks) reply ev s = None) \<longrightarrow>
            (\<exists>r. run w reply tr = Some r)) \<and>
         (\<forall>r. run w reply tr = Some r \<longrightarrow>
            (\<exists>parts. result r = join (separator w) parts \<and>
               parts = map (contribution reply) (completion_order tr) \<and>
               length parts = length chunks \<and>
               contribution reply f \<in> set parts \<and>
               prefix (lit ''[ERROR]'') (contribution reply f) \<and>
               sublist (contribution reply f) (result r) \<and>
               (\<forall>i<length chunks. i \<noteq> f \<longrightarrow>
                  (\<exists>t. reply i = Reply t \<and> t \<in> set parts \<and> sublist t (result r))))) \<and>
         (\<exists>tr' r. run w reply (tr @ tr') = Some r) \<and>
         (\<forall>tr0. run w (reply(f := Aborted)) tr0 = None) \<and>
         (\<forall>tr0 s0. exec w (length chunks) (reply(f := Aborted)) tr0 (start chunks) = Some s0 \<and>
                    f \<in> set (in_flight s0) \<longrightarrow>
            run_raises w (reply(f := Aborted)) tr0)"
proof -
  have hd: "\<forall>i<length chunks. handled reply i"
  proof (intro allI impI)
    fix i assume "i < length chunks"
    with ok f(2) have "reply i = Raised e \<or> succeeded reply i" by blast
    then show "handled reply i"
      by (auto simp: handled_def succeeded_def split: outcome.splits)
  qed
  have 1: "length tr \<le> 2 * length chunks"
    using schedule_length [OF ex] by simp
  have 2: "\<exists>r. run w reply tr = Some r" if "\<forall>ev. step w (length chunks) reply ev s = None"
  proof -
    from no_deadlock [OF reachable_consistent [OF ex] hd that]
    have "waiting s = [] \<and> in_flight s = []" .
    with ex show ?thesis
      by (simp add: run_list [OF td] process_chunks_def)
  qed
  have 3: "\<exists>parts. result r = join (separator w) parts \<and>
               parts = map (contribution reply) (completion_order tr) \<and>
               length parts = length chunks \<and>
               contribution reply f \<in> set parts \<and>
               prefix (lit ''[ERROR]'') (contribution reply f) \<and>
               sublist (contribution reply f) (result r) \<and>
               (\<forall>i<length chunks. i \<noteq> f \<longrightarrow>
                  (\<exists>t. reply i = Reply t \<and> t \<in> set parts \<and> sublist t (result r)))"
    if r: "run w reply tr = Some r" for r
  proof -
    let ?parts = "map (contribution reply) (completion_order tr)"
    from r obtain z where z: "process_chunks w chunks reply tr = Some z" and rz: "r = finish z"
      by (auto simp: run_list [OF td])
    note p = process_chunks_result(1,2) [OF z]
    from p(1) rz have res: "result r = join (separator w) ?parts"
      by (simp add: finish_simps)
    from p(2) have st: "set (completion_order tr) = {0..<length chunks}"
      by (metis mset_eq_setD set_upt)
    from p(2) have "size (mset (completion_order tr)) = size (mset [0..<length chunks])"
      by simp
    then have len: "length ?parts = length chunks" by simp
    have mem: "contribution reply i \<in> set ?parts" if "i < length chunks" for i
      using that st by simp
    have sub: "sublist (contribution reply i) (result r)" if "i < length chunks" for i
      unfolding res by (rule in_join_sublist [OF mem [OF that]])
    have others: "\<exists>t. reply i = Reply t \<and> t \<in> set ?parts \<and> sublist t (result r)"
      if "i < length chunks" "i \<noteq> f" for i
    proof -
      from ok that have "succeeded reply i" by simp
      then obtain t where t: "reply i = Reply t"
        by (auto simp: succeeded_def split: outcome.splits)
      then have "contribution reply i = t" by (simp add: contribution_def)
      with mem [OF that(1)] sub [OF that(1)] t show ?thesis by auto
    qed
    have others': "\<forall>i<length chunks. i \<noteq> f \<longrightarrow>
                  (\<exists>t. reply i = Reply t \<and> t \<in> set ?parts \<and> sublist t (result r))"
      using others by simp
    have "result r = join (separator w) ?parts \<and>
               ?parts = map (contribution reply) (completion_order tr) \<and>
               length ?parts = length chunks \<and>
               contribution reply f \<in> set ?parts \<and>
               prefix (lit ''[ERROR]'') (contribution reply f) \<and>
               sublist (contribution reply f) (result r) \<and>
               (\<forall>i<length chunks. i \<noteq> f \<longrightarrow>
                  (\<exists>t. reply i = Reply t \<and> t \<in> set ?parts \<and> sublist t (result r)))"
      by (intro conjI res refl len mem [OF f(1)] error_marker_prefix [of reply f e, OF f(2)]
            sub [OF f(1)] others')
    then show ?thesis by (rule exI)
  qed
  have 4: "\<exists>tr' r. run w reply (tr @ tr') = Some r"
    using process_chunks_continues [OF ex hd] by (auto simp: run_list [OF td])
  have ab: "(reply(f := Aborted)) f = Aborted" by simp
  have 5: "run w (reply(f := Aborted)) tr0 = None" for tr0
    using aborted_no_report [of f chunks "reply(f := Aborted)" w tr0, OF f(1) ab]
    by (simp add: run_list [OF td])
  have 6: "run_raises w (reply(f := Aborted)) tr0"
    if "exec w (length chunks) (reply(f := Aborted)) tr0 (start chunks) = Some s0 \<and>
        f \<in> set (in_flight s0)" for tr0 s0
    using that td by (auto simp: run_raises_def process_chunks_raises_def list_ex_iff)
  show ?thesis
  proof (intro conjI allI impI)
    show "length tr \<le> 2 * length chunks" by (rule 1)
  next
    show "\<exists>tr' r. run w reply (tr @ tr') = Some r" by (rule 4)
  next
    fix tr0 show "run w (reply(f := Aborted)) tr0 = None" by (rule 5)
  next
    fix tr0 s0
    assume "exec w (length chunks) (reply(f := Aborted)) tr0 (start chunks) = Some s0 \<and>
            f \<in> set (in_flight s0)"
    then show "run_raises w (reply(f := Aborted)) tr0" by (rule 6)
  next
    assume "\<forall>ev. step w (length chunks) reply ev s = None"
    then show "\<exists>r. run w reply tr = Some r" by (rule 2)
  next
    fix r assume "run w reply tr = Some r"
    then show "\<exists>parts. result r = join (separator w) parts \<and>
               parts = map (contribution reply) (completion_order tr) \<and>
               length parts = length chunks \<and>
               contribution reply f \<in> set parts \<and>
               prefix (lit ''[ERROR]'') (contribution reply f) \<and>
               sublist (contribution reply f) (result r) \<and>
               (\<forall>i<length chunks. i \<noteq> f \<longrightarrow>
                  (\<exists>t. reply i = Reply t \<and> t \<in> set parts \<and> sublist t (result r)))"
      by (rule 3)
  qed
qed



lemma exec_second_fails:
  "exec w 3 demo_failing [Enter 0, Enter 1, Return 1, Enter 2, Return 2, Return 0]
     (start [c0, c1, c2]) =
     Some \<lparr>sem = 2, waiting = [], in_flight = [],
           summaries = [lit ''[ERROR] Processing chunk '' @ str_nat 2 @ lit '': '' @ lit ''boom'',
                        lit ''C'', lit ''A''],
           signals = [Output (lit ''Split into '' @ str_nat 3 @ lit '' chunks for processing...''),
                      Output (lit ''Processing chunk '' @ str_nat 1 @ lit ''/'' @ str_nat 3 @ lit ''...''),
                      Output (lit ''Processing chunk '' @ str_nat 2 @ lit ''/'' @ str_nat 3 @ lit ''...''),
                      Output (lit ''[ERROR] Processing chunk '' @ str_nat 2 @ lit '': '' @ lit ''boom''),
                      Output (lit ''Processing chunk '' @ str_nat 3 @ lit ''/'' @ str_nat 3 @ lit ''...''),
                      Progress 100, Progress 33],
           calls = [chat_request w c0, chat_request w c1, chat_request w c2]\<rparr>"
  by (simp add: start_def enter_def return_def demo_failing_def Let_def progress_value_of_three
        str_nat_Suc_Suc_0 str_nat_Suc_Suc_Suc_0)


theorem one_failing_unit_is_contained_witness:
  "text_data demo_three = PList [PStr (lit ''x''), PStr (lit ''y''), PStr (lit ''z'')] \<and>
   demo_failing 1 = Raised (lit ''boom'') \<and>
   succeeded demo_failing 0 \<and> succeeded demo_failing 2 \<and>
   run demo_three demo_failing [Enter 0, Enter 1, Return 1, Enter 2, Return 2, Return 0] \<noteq> None \<and>
   result (the (run demo_three demo_failing
                  [Enter 0, Enter 1, Return 1, Enter 2, Return 2, Return 0])) =
     (lit ''[ERROR] Processing chunk '' @ str_nat 2 @ lit '': '' @ lit ''boom'') @
     ([10, 10] @ lit ''--- SECTION BREAK ---'' @ [10, 10]) @ lit ''C'' @
     ([10, 10] @ lit ''--- SECTION BREAK ---'' @ [10, 10]) @ lit ''A'' \<and>
   prefix (lit ''[ERROR]'')
     (lit ''[ERROR] Processing chunk '' @ str_nat 2 @ lit '': '' @ lit ''boom'') \<and>
   sublist (lit ''A'')
     (result (the (run demo_three demo_failing
                     [Enter 0, Enter 1, Return 1, Enter 2, Return 2, Return 0]))) \<and>
   sublist (lit ''C'')
     (result (the (run demo_three demo_failing
                     [Enter 0, Enter 1, Return 1, Enter 2, Return 2, Return 0]))) \<and>
   run demo_three (demo_failing(1 := Aborted))
     [Enter 0, Enter 1, Return 0, Enter 2, Return 2] = None"
proof -
  let ?cs = "[PStr (lit ''x''), PStr (lit ''y''), PStr (lit ''z'')]"
  let ?tr = "[Enter 0, Enter 1, Return 1, Enter 2, Return 2, Return 0]"
  let ?E = "lit ''[ERROR] Processing chunk '' @ str_nat 2 @ lit '': '' @ lit ''boom''"
  let ?SB = "[10, 10] @ lit ''--- SECTION BREAK ---'' @ [10, 10]"
  have n: "length ?cs = 3" by simp
  have td: "text_data demo_three = PList ?cs" by (simp add: demo_three_def)
  have f: "1 < length ?cs" "demo_failing 1 = Raised (lit ''boom'')"
    by (simp_all add: demo_failing_def)
  have ok: "\<forall>i<length ?cs. i \<noteq> 1 \<longrightarrow> succeeded demo_failing i"
    by (simp add: succeeded_def demo_failing_def)
  have s02: "succeeded demo_failing 0" "succeeded demo_failing 2"
    by (simp_all add: succeeded_def demo_failing_def)
  note e = exec_second_fails [of demo_three "PStr (lit ''x'')" "PStr (lit ''y'')" "PStr (lit ''z'')"]
  note t = one_failing_unit_is_contained [OF td f ok, unfolded n, OF e]
  have stuck: "\<forall>ev. step demo_three 3 demo_failing ev
      \<lparr>sem = 2, waiting = [], in_flight = [],
           summaries = [?E, lit ''C'', lit ''A''],
           signals = [Output (lit ''Split into '' @ str_nat 3 @ lit '' chunks for processing...''),
                      Output (lit ''Processing chunk '' @ str_nat 1 @ lit ''/'' @ str_nat 3 @ lit ''...''),
                      Output (lit ''Processing chunk '' @ str_nat 2 @ lit ''/'' @ str_nat 3 @ lit ''...''),
                      Output ?E,
                      Output (lit ''Processing chunk '' @ str_nat 3 @ lit ''/'' @ str_nat 3 @ lit ''...''),
                      Progress 100, Progress 33],
           calls = [chat_request demo_three (PStr (lit ''x'')),
                    chat_request demo_three (PStr (lit ''y'')),
                    chat_request demo_three (PStr (lit ''z''))]\<rparr> = None"
    by (simp add: finished_no_step)
  with t obtain r where r: "run demo_three demo_failing ?tr = Some r" by blast
  with t obtain parts where p: "result r = join (separator demo_three) parts"
    "parts = map (contribution demo_failing) (completion_order ?tr)"
    "prefix (lit ''[ERROR]'') (contribution demo_failing 1)"
    "\<forall>i<3. i \<noteq> 1 \<longrightarrow> (\<exists>t. demo_failing i = Reply t \<and> t \<in> set parts \<and> sublist t (result r))"
    by blast
  have c: "contribution demo_failing 1 = ?E" "contribution demo_failing 2 = lit ''C''"
    "contribution demo_failing 0 = lit ''A''"
    by (simp_all add: contribution_def demo_failing_def str_nat_Suc_Suc_0)
  have sep: "separator demo_three = ?SB" by (simp add: separator_def demo_three_def)
  from p(1,2) c sep have res: "result r = ?E @ ?SB @ lit ''C'' @ ?SB @ lit ''A''"
    by simp
  from p(4) [rule_format, of 0] have "sublist (lit ''A'') (result r)"
    by (simp add: demo_failing_def)
  moreover from p(4) [rule_format, of 2] have "sublist (lit ''C'') (result r)"
    by (simp add: demo_failing_def)
  ultimately have "sublist (lit ''A'') (result r)" "sublist (lit ''C'') (result r)"
    by simp_all
  moreover from t
  have "run demo_three (demo_failing(1 := Aborted))
          [Enter 0, Enter 1, Return 0, Enter 2, Return 2] = None"
    by blast
  ultimately show ?thesis using r res p(3) c(1) td f(2) s02 by simp
qed

subsection \<open>Progress notifications\<close>

lemma process_chunks_second_fails:
  "process_chunks demo_three [PStr (lit ''x''), PStr (lit ''y''), PStr (lit ''z'')] demo_failing
     [Enter 0, Enter 1, Return 1, Enter 2, Return 2, Return 0] \<noteq> None \<and>
   progress_values (emitted (the (process_chunks demo_three
     [PStr (lit ''x''), PStr (lit ''y''), PStr (lit ''z'')] demo_failing
     [Enter 0, Enter 1, Return 1, Enter 2, Return 2, Return 0]))) = [100, 33]"
proof -
  have n: "length [PStr (lit ''x''), PStr (lit ''y''), PStr (lit ''z'')] = 3" by simp
  show ?thesis
    unfolding process_chunks_def n exec_second_fails by simp
qed

text \<open>
  C6, as the code has it. Two units, both succeeding, complete in the order 1, 0: the
  values emitted are 100 and then 50, so the first is not the share of completed units
  (one of two) and the sequence decreases. And of three completed units of which one
  failed, only the two that succeeded emit a value.
\<close>

theorem progress_follows_index_not_completion:
  "progress_values (emitted (the (process_chunks demo_brief [PStr (lit ''x''), PStr (lit ''y'')]
     demo_reply [Enter 0, Enter 1, Return 1, Return 0]))) = [100, 50] \<and>
   \<not> sorted [100, 50 :: int] \<and>
   completion_order [Enter 0, Enter 1, Return 1, Enter 2, Return 2, Return 0] = [1, 2, 0] \<and>
   progress_values (emitted (the (process_chunks demo_three
     [PStr (lit ''x''), PStr (lit ''y''), PStr (lit ''z'')] demo_failing
     [Enter 0, Enter 1, Return 1, Enter 2, Return 2, Return 0]))) = [100, 33]"
  using process_chunks_second_fails
  unfolding process_chunks_swapped by simp

lemma sorted_map_filter:
  assumes "\<And>i j. i \<le> j \<Longrightarrow> f i \<le> (f j :: int)"
  shows "sorted (xs :: nat list) \<Longrightarrow> sorted (map f (filter P xs))"
  using assms by (induction xs) auto

text \<open>
  C6, amended. When a multi-unit request returns, the progress values emitted are those
  of the units whose call returned a reply, in the order of completion, a failing unit
  emitting none; the value of a unit is \<open>int((index + 1) / total * 100)\<close> for its own
  index. If the units complete in increasing index order, the values do not decrease.
\<close>

theorem progress_values_by_index:
  assumes "process_chunks w chunks reply tr = Some r"
  shows "progress_values (emitted r) =
           map (\<lambda>i. progress_value i (length chunks))
               (filter (succeeded reply) (completion_order tr)) \<and>
         (sorted (completion_order tr) \<longrightarrow> sorted (progress_values (emitted r)))"
proof -
  note p = process_chunks_result(2,3) [OF assms]
  have "sorted (progress_values (emitted r))" if s: "sorted (completion_order tr)"
  proof (cases "chunks = []")
    case True
    with p(1) have "completion_order tr = []" by simp
    with p(2) show ?thesis by simp
  next
    case False
    then have "progress_value i (length chunks) \<le> progress_value j (length chunks)"
      if "i \<le> j" for i j
      using that by (intro progress_value_mono) simp_all
    from sorted_map_filter [of "\<lambda>i. progress_value i (length chunks)", OF this s]
    show ?thesis unfolding p(2) .
  qed
  with p(2) show ?thesis by simp
qed

theorem progress_values_by_index_witness:
  "process_chunks demo_brief [PStr (lit ''x''), PStr (lit ''y'')] demo_reply
     [Enter 0, Enter 1, Return 0, Return 1] \<noteq> None \<and>
   sorted (completion_order [Enter 0, Enter 1, Return 0, Return 1]) \<and>
   progress_values (emitted (the (process_chunks demo_brief [PStr (lit ''x''), PStr (lit ''y'')]
     demo_reply [Enter 0, Enter 1, Return 0, Return 1]))) = [50, 100] \<and>
   sorted (progress_values (emitted (the (process_chunks demo_brief
     [PStr (lit ''x''), PStr (lit ''y'')] demo_reply [Enter 0, Enter 1, Return 0, Return 1]))))"
proof -
  let ?P = "process_chunks demo_brief [PStr (lit ''x''), PStr (lit ''y'')] demo_reply
     [Enter 0, Enter 1, Return 0, Return 1]"
  note e = process_chunks_in_order [of "PStr (lit ''x'')" "PStr (lit ''y'')"]
  have s: "sorted (completion_order [Enter 0, Enter 1, Return 0, Return 1])" by simp
  have r: "?P = Some (the ?P)" unfolding e by simp
  have ne: "?P \<noteq> None" unfolding e by simp
  have pv: "progress_values (emitted (the ?P)) = [50, 100]" unfolding e by simp
  from progress_values_by_index [OF r] s
  have "sorted (progress_values (emitted (the ?P)))" by blast
  with ne s pv show ?thesis by blast
qed

section \<open>Properties of the segmenter\<close>

lemmas seg_eval = split_text_into_chunks_def sentences_def py_split_def replace_char_def
  flush_def strip_def lstrip_def rstrip_def isspace_def lit_def Let_def

lemma isspace_32: "isspace 32"
  by (simp add: isspace_def)

lemma set_strip: "set (strip s) \<subseteq> set s"
proof -
  have "set (strip s) \<subseteq> set (rstrip s)"
    unfolding strip_def lstrip_def by (auto dest: set_dropWhileD)
  also have "\<dots> \<subseteq> set s"
    unfolding rstrip_def by (auto dest: set_dropWhileD)
  finally show ?thesis .
qed

lemma length_strip: "length (strip s) \<le> length s"
proof -
  have "length (strip s) \<le> length (rstrip s)"
    unfolding strip_def lstrip_def by (rule length_dropWhile_le)
  also have "\<dots> \<le> length s"
    unfolding rstrip_def using length_dropWhile_le [of isspace "rev s"] by simp
  finally show ?thesis .
qed

lemma rstrip_snoc_space: "isspace c \<Longrightarrow> rstrip (w @ [c]) = rstrip w"
  by (simp add: rstrip_def)

lemma strip_snoc_space: "isspace c \<Longrightarrow> strip (w @ [c]) = strip w"
  by (simp add: strip_def rstrip_snoc_space)

lemma split_from_no_sep:
  "c \<notin> set cur \<Longrightarrow> w \<in> set (split_from [c] cur s) \<Longrightarrow> c \<notin> set w"
proof (induction s arbitrary: cur)
  case Nil
  then show ?case by simp
next
  case (Cons x xs)
  show ?case
  proof (cases "c = x")
    case True
    with Cons.prems(2) have "w = cur \<or> w \<in> set (split_from [c] [] xs)" by simp
    then show ?thesis
    proof
      assume "w = cur"
      with Cons.prems(1) show ?thesis by simp
    next
      assume "w \<in> set (split_from [c] [] xs)"
      with Cons.IH [of "[]"] show ?thesis by simp
    qed
  next
    case False
    with Cons.prems(2) have "w \<in> set (split_from [c] (cur @ [x]) xs)" by simp
    with Cons.IH [of "cur @ [x]"] Cons.prems(1) False show ?thesis by simp
  qed
qed

lemma py_split_no_sep: "w \<in> set (py_split [c] s) \<Longrightarrow> c \<notin> set w"
  unfolding py_split_def by (rule split_from_no_sep [of c "[]"]) simp_all

lemma flush_fits:
  assumes "\<forall>c\<in>set chunks. fits m c" and "open_ok m cur"
  shows "\<forall>c\<in>set (flush chunks cur). fits m c"
proof -
  have "fits m (strip cur)"
  proof -
    from assms(2) consider "cur = []" | "int (length cur) \<le> m"
      | w where "cur = w @ [32]" "32 \<notin> set w"
      by (auto simp: open_ok_def)
    then show ?thesis
    proof cases
      case 1
      then show ?thesis by (simp add: fits_def strip_def lstrip_def rstrip_def)
    next
      case 2
      with length_strip [of cur] show ?thesis by (simp add: fits_def)
    next
      case 3
      then have "strip cur = strip w" by (simp add: strip_snoc_space isspace_32)
      with set_strip [of w] 3(2) show ?thesis by (auto simp: fits_def)
    qed
  qed
  with assms(1) show ?thesis by (simp add: flush_def)
qed

lemma pack_words_fits:
  "\<forall>w\<in>set ws. 32 \<notin> set w \<Longrightarrow> \<forall>c\<in>set chunks. fits m c \<Longrightarrow> open_ok m cur \<Longrightarrow>
   pack_words m ws (chunks, cur) = (chunks', cur') \<Longrightarrow>
   (\<forall>c\<in>set chunks'. fits m c) \<and> open_ok m cur'"
proof (induction ws arbitrary: chunks cur)
  case Nil
  then show ?case by simp
next
  case (Cons word ws)
  show ?case
  proof (cases "int (length cur) + int (length word) + 1 \<le> m")
    case True
    then have o: "open_ok m (cur @ word @ [32])" by (simp add: open_ok_def)
    from Cons.prems(4) True
    have "pack_words m ws (chunks, cur @ word @ [32]) = (chunks', cur')" by simp
    from Cons.IH [OF _ Cons.prems(2) o this] Cons.prems(1) show ?thesis by simp
  next
    case False
    from Cons.prems(1) have o: "open_ok m (word @ [32])" by (simp add: open_ok_def)
    from Cons.prems(4) False
    have "pack_words m ws (flush chunks cur, word @ [32]) = (chunks', cur')" by simp
    from Cons.IH [OF _ flush_fits [OF Cons.prems(2,3)] o this] Cons.prems(1)
    show ?thesis by simp
  qed
qed

lemma pack_sentences_fits:
  "\<forall>c\<in>set chunks. fits m c \<Longrightarrow> open_ok m cur \<Longrightarrow>
   pack_sentences m ss (chunks, cur) = (chunks', cur') \<Longrightarrow>
   (\<forall>c\<in>set chunks'. fits m c) \<and> open_ok m cur'"
proof (induction ss arbitrary: chunks cur)
  case Nil
  then show ?case by simp
next
  case (Cons sentence rest)
  let ?swp = "sentence @ [46, 32]"
  show ?case
  proof (cases "int (length (cur @ ?swp)) \<le> m")
    case True
    then have o: "open_ok m (cur @ ?swp)" by (simp add: open_ok_def)
    from Cons.prems(3) True
    have "pack_sentences m rest (chunks, cur @ ?swp) = (chunks', cur')" by (simp add: Let_def)
    from Cons.IH [OF Cons.prems(1) o this] show ?thesis .
  next
    case False
    note f = flush_fits [OF Cons.prems(1,2)]
    show ?thesis
    proof (cases "int (length ?swp) \<le> m")
      case True
      then have o: "open_ok m ?swp" by (simp add: open_ok_def)
      from Cons.prems(3) False True
      have "pack_sentences m rest (flush chunks cur, ?swp) = (chunks', cur')"
        by (simp add: Let_def)
      from Cons.IH [OF f o this] show ?thesis .
    next
      case long: False
      obtain chunks2 last_part where
        p: "pack_words m (py_split [32] ?swp) (flush chunks cur, []) = (chunks2, last_part)"
        by (cases "pack_words m (py_split [32] ?swp) (flush chunks cur, [])")
      have "\<forall>w\<in>set (py_split [32] ?swp). 32 \<notin> set w"
        by (auto dest: py_split_no_sep)
      from pack_words_fits [OF this f _ p]
      have "(\<forall>c\<in>set chunks2. fits m c) \<and> open_ok m last_part"
        by (simp add: open_ok_def)
      then have f2: "\<forall>c\<in>set (flush chunks2 last_part). fits m c"
        by (intro flush_fits) simp_all
      have o: "open_ok m []" by (simp add: open_ok_def)
      from Cons.prems(3) False long p
      have "pack_sentences m rest (flush chunks2 last_part, []) = (chunks', cur')"
        by (simp add: Let_def)
      from Cons.IH [OF f2 o this] show ?thesis .
    qed
  qed
qed

text \<open>
  C2. Every chunk that the segmenter returns has at most \<open>max_chunk_size\<close> characters,
  or else it contains no space: it is one word longer than the size.
\<close>

theorem chunk_fits_or_is_one_word:
  assumes "0 < max_chunk_size"
    and "c \<in> set (split_text_into_chunks text max_chunk_size)"
  shows "int (length c) \<le> max_chunk_size \<or>
         (32 \<notin> set c \<and> max_chunk_size < int (length c))"
proof -
  obtain chunks cur where
    p: "pack_sentences max_chunk_size (sentences text) ([], []) = (chunks, cur)"
    by (cases "pack_sentences max_chunk_size (sentences text) ([], [])")
  have "(\<forall>c\<in>set chunks. fits max_chunk_size c) \<and> open_ok max_chunk_size cur"
    by (rule pack_sentences_fits [OF _ _ p]) (simp_all add: open_ok_def)
  then have "\<forall>c\<in>set (flush chunks cur). fits max_chunk_size c"
    by (intro flush_fits) simp_all
  with assms(2) p have "fits max_chunk_size c"
    by (simp add: split_text_into_chunks_def)
  then show ?thesis by (auto simp: fits_def)
qed

theorem chunk_fits_or_is_one_word_witness:
  "(0::int) < 5 \<and>
   split_text_into_chunks (lit ''aaaaaaaaaaaaaaaaaaaaaa bb. cc'') 5 =
     [lit ''aaaaaaaaaaaaaaaaaaaaaa'', lit ''bb.'', lit ''cc.''] \<and>
   32 \<notin> set (lit ''aaaaaaaaaaaaaaaaaaaaaa'') \<and>
   5 < int (length (lit ''aaaaaaaaaaaaaaaaaaaaaa'')) \<and>
   int (length (lit ''bb.'')) \<le> 5"
proof -
  have e: "split_text_into_chunks (lit ''aaaaaaaaaaaaaaaaaaaaaa bb. cc'') 5 =
     [lit ''aaaaaaaaaaaaaaaaaaaaaa'', lit ''bb.'', lit ''cc.'']"
    by (simp add: seg_eval)
  have p: "(0::int) < 5" by simp
  have m: "lit ''aaaaaaaaaaaaaaaaaaaaaa'' \<in>
      set (split_text_into_chunks (lit ''aaaaaaaaaaaaaaaaaaaaaa bb. cc'') 5)"
    unfolding e by simp
  have l: "5 < int (length (lit ''aaaaaaaaaaaaaaaaaaaaaa''))" by (simp add: lit_def)
  from chunk_fits_or_is_one_word [OF p m] l
  have "32 \<notin> set (lit ''aaaaaaaaaaaaaaaaaaaaaa'')" by simp
  moreover have "int (length (lit ''bb.'')) \<le> 5" by (simp add: lit_def)
  ultimately show ?thesis using e p l by simp
qed


subsection \<open>The words of the chunks\<close>

lemma words_from_space:
  "isspace c \<Longrightarrow> words_from cur (a @ c # b) = words_from cur a @ words_of b"
  by (induction a arbitrary: cur) (simp_all add: words_of_def)

lemma words_of_space: "isspace c \<Longrightarrow> words_of (a @ c # b) = words_of a @ words_of b"
  unfolding words_of_def [of "a @ c # b"] words_of_def [of a] by (rule words_from_space)

lemma words_of_Nil: "words_of [] = []"
  by (simp add: words_of_def)

lemma words_of_snoc_space: "isspace c \<Longrightarrow> words_of (a @ [c]) = words_of a"
  using words_of_space [of c a "[]"] by (simp add: words_of_Nil)

lemma words_of_append:
  assumes "a = [] \<or> isspace (last a)"
  shows "words_of (a @ b) = words_of a @ words_of b"
proof (cases "a = []")
  case True
  then show ?thesis by (simp add: words_of_Nil)
next
  case False
  then obtain a' c where a: "a = a' @ [c]" by (metis rev_exhaust)
  with assms have c: "isspace c" by simp
  have "words_of (a @ b) = words_of (a' @ c # b)" by (simp add: a)
  also have "\<dots> = words_of a' @ words_of b" by (rule words_of_space [OF c])
  also have "words_of a' = words_of a" by (simp add: a words_of_snoc_space [OF c])
  finally show ?thesis .
qed

lemma words_of_lstrip: "words_of (lstrip s) = words_of s"
  by (induction s) (simp_all add: lstrip_def words_of_def)

lemma words_of_rstrip: "words_of (rstrip s) = words_of s"
proof (induction s rule: rev_induct)
  case Nil
  then show ?case by (simp add: rstrip_def)
next
  case (snoc c s)
  show ?case
  proof (cases "isspace c")
    case True
    with snoc show ?thesis by (simp add: rstrip_snoc_space words_of_snoc_space)
  next
    case False
    then show ?thesis by (simp add: rstrip_def)
  qed
qed

lemma words_of_strip: "words_of (strip s) = words_of s"
  by (simp add: strip_def words_of_lstrip words_of_rstrip)

lemma words_of_split_from:
  "concat (map words_of (split_from [32] cur s)) = words_of (cur @ s)"
proof (induction s arbitrary: cur)
  case Nil
  then show ?case by simp
next
  case (Cons x xs)
  show ?case
  proof (cases "x = 32")
    case True
    have "concat (map words_of (split_from [32] cur (x # xs))) =
          words_of cur @ concat (map words_of (split_from [32] [] xs))"
      using True by simp
    also have "\<dots> = words_of cur @ words_of xs" by (simp add: Cons.IH [of "[]"])
    also have "\<dots> = words_of (cur @ x # xs)"
      unfolding True by (rule words_of_space [OF isspace_32, symmetric])
    finally show ?thesis .
  next
    case False
    then have "concat (map words_of (split_from [32] cur (x # xs))) =
          concat (map words_of (split_from [32] (cur @ [x]) xs))" by simp
    with Cons.IH [of "cur @ [x]"] show ?thesis by simp
  qed
qed

lemma words_of_py_split: "concat (map words_of (py_split [32] s)) = words_of s"
  using words_of_split_from [of "[]" s] by (simp add: py_split_def)

lemma words_of_flush:
  "concat (map words_of (flush chunks cur)) = concat (map words_of chunks) @ words_of cur"
proof (cases "strip cur = []")
  case True
  with words_of_strip [of cur] have "words_of cur = []" by (simp add: words_of_Nil)
  with True show ?thesis by (simp add: flush_def)
next
  case False
  then show ?thesis by (simp add: flush_def words_of_strip)
qed

lemma pack_words_words:
  "cur = [] \<or> isspace (last cur) \<Longrightarrow> pack_words m ws (chunks, cur) = (chunks', cur') \<Longrightarrow>
   concat (map words_of chunks') @ words_of cur' =
     concat (map words_of chunks) @ words_of cur @ concat (map words_of ws) \<and>
   (cur' = [] \<or> isspace (last cur'))"
proof (induction ws arbitrary: chunks cur)
  case Nil
  then show ?case by simp
next
  case (Cons word ws)
  have w: "words_of (word @ [32]) = words_of word"
    by (rule words_of_snoc_space [OF isspace_32])
  have e: "word @ [32] = [] \<or> isspace (last (word @ [32]))"
    by (simp add: isspace_32)
  show ?case
  proof (cases "int (length cur) + int (length word) + 1 \<le> m")
    case True
    with Cons.prems(2)
    have p: "pack_words m ws (chunks, cur @ word @ [32]) = (chunks', cur')" by simp
    have e': "cur @ word @ [32] = [] \<or> isspace (last (cur @ word @ [32]))"
      by (simp add: isspace_32)
    have "words_of (cur @ word @ [32]) = words_of cur @ words_of word"
      using words_of_append [OF Cons.prems(1), of "word @ [32]"] w by simp
    with Cons.IH [OF e' p] show ?thesis by simp
  next
    case False
    with Cons.prems(2)
    have p: "pack_words m ws (flush chunks cur, word @ [32]) = (chunks', cur')" by simp
    from Cons.IH [OF e p] w show ?thesis by (simp add: words_of_flush)
  qed
qed

lemma pack_sentences_words:
  "cur = [] \<or> isspace (last cur) \<Longrightarrow> pack_sentences m ss (chunks, cur) = (chunks', cur') \<Longrightarrow>
   concat (map words_of chunks') @ words_of cur' =
     concat (map words_of chunks) @ words_of cur @
     concat (map (\<lambda>s. words_of (s @ [46, 32])) ss) \<and>
   (cur' = [] \<or> isspace (last cur'))"
proof (induction ss arbitrary: chunks cur)
  case Nil
  then show ?case by simp
next
  case (Cons sentence rest)
  let ?swp = "sentence @ [46, 32]"
  have e: "?swp = [] \<or> isspace (last ?swp)" by (simp add: isspace_32)
  show ?case
  proof (cases "int (length (cur @ ?swp)) \<le> m")
    case True
    with Cons.prems(2)
    have p: "pack_sentences m rest (chunks, cur @ ?swp) = (chunks', cur')"
      by (simp add: Let_def)
    have e': "cur @ ?swp = [] \<or> isspace (last (cur @ ?swp))" by (simp add: isspace_32)
    from Cons.IH [OF e' p] words_of_append [OF Cons.prems(1), of ?swp]
    show ?thesis by simp
  next
    case False
    show ?thesis
    proof (cases "int (length ?swp) \<le> m")
      case True
      with Cons.prems(2) False
      have p: "pack_sentences m rest (flush chunks cur, ?swp) = (chunks', cur')"
        by (simp add: Let_def)
      from Cons.IH [OF e p] show ?thesis by (simp add: words_of_flush)
    next
      case long: False
      obtain chunks2 last_part where
        q: "pack_words m (py_split [32] ?swp) (flush chunks cur, []) = (chunks2, last_part)"
        by (cases "pack_words m (py_split [32] ?swp) (flush chunks cur, [])")
      from pack_words_words [OF _ q]
      have c2: "concat (map words_of chunks2) @ words_of last_part =
                concat (map words_of chunks) @ words_of cur @ words_of ?swp"
        by (simp add: words_of_flush words_of_Nil words_of_py_split)
      from Cons.prems(2) False long q
      have p: "pack_sentences m rest (flush chunks2 last_part, []) = (chunks', cur')"
        by (simp add: Let_def)
      from Cons.IH [OF _ p] c2 show ?thesis
        by (simp add: words_of_flush words_of_Nil)
    qed
  qed
qed

lemma words_of_chunks:
  "concat (map words_of (split_text_into_chunks text m)) =
   concat (map (\<lambda>s. words_of (s @ [46, 32])) (sentences text))"
proof -
  obtain chunks cur where
    p: "pack_sentences m (sentences text) ([], []) = (chunks, cur)"
    by (cases "pack_sentences m (sentences text) ([], [])")
  from pack_sentences_words [OF _ p]
  have "concat (map words_of chunks) @ words_of cur =
        concat (map (\<lambda>s. words_of (s @ [46, 32])) (sentences text))"
    by (simp add: words_of_Nil)
  with p show ?thesis by (simp add: split_text_into_chunks_def words_of_flush)
qed

lemma words_of_join: "words_of (join [32] xs) = concat (map words_of xs)"
proof (induction "[32::nat]" xs rule: join.induct)
  case 1
  then show ?case by (simp add: words_of_Nil)
next
  case (2 x)
  then show ?case by simp
next
  case (3 x y ys)
  have "words_of (join [32] (x # y # ys)) = words_of (x @ 32 # join [32] (y # ys))" by simp
  also have "\<dots> = words_of x @ words_of (join [32] (y # ys))"
    by (rule words_of_space [OF isspace_32])
  finally show ?case using 3 by simp
qed

lemma words_of_concat_sentences:
  "words_of (concat (map (\<lambda>s. s @ [46, 32]) ss)) =
   concat (map (\<lambda>s. words_of (s @ [46, 32])) ss)"
proof (induction ss)
  case Nil
  then show ?case by (simp add: words_of_Nil)
next
  case (Cons s ss)
  have "s @ [46, 32] = [] \<or> isspace (last (s @ [46, 32]))" by (simp add: isspace_32)
  then have "words_of ((s @ [46, 32]) @ concat (map (\<lambda>s. s @ [46, 32]) ss)) =
             words_of (s @ [46, 32]) @ words_of (concat (map (\<lambda>s. s @ [46, 32]) ss))"
    by (rule words_of_append)
  with Cons show ?case by simp
qed

text \<open>
  What the segmenter keeps on every input: the chunks, joined by single spaces and
  whitespace-normalised, are the whitespace-normalised sequence of the sentences, each
  followed by the delimiter \<open>. \<close> that line 799 appends to it.
\<close>

lemma chunks_hold_the_sentences:
  "ws_normalize (join [32] (split_text_into_chunks text max_chunk_size)) =
   ws_normalize (concat (map (\<lambda>s. s @ lit ''. '') (sentences text)))"
proof -
  have l: "lit ''. '' = [46, 32]" by (simp add: lit_def)
  show ?thesis
    unfolding ws_normalize_def l words_of_join words_of_concat_sentences words_of_chunks ..
qed

text \<open>
  C3. The chunks of a text, concatenated and whitespace-normalised, should be the
  whitespace-normalised text. The segmenter misses this on the text \<open>One. Two.\<close>,
  which comes back as the single chunk \<open>One. Two..\<close>: line 799 gives the delimiter
  back to every piece of the split, also to the last one, after which the split found
  none, and whitespace normalisation does not take the second period away. The same
  text followed by a line break, where the split does remove a delimiter after the
  last sentence, comes back as it was.
\<close>

theorem segmentation_adds_a_period:
  "split_text_into_chunks (lit ''One. Two.'') 2500 = [lit ''One. Two..''] \<and>
   ws_normalize (concat [lit ''One. Two..'']) = lit ''One. Two..'' \<and>
   ws_normalize (join [32] [lit ''One. Two..'']) = lit ''One. Two..'' \<and>
   ws_normalize (lit ''One. Two.'') = lit ''One. Two.'' \<and>
   lit ''One. Two..'' \<noteq> lit ''One. Two.'' \<and>
   split_text_into_chunks (lit ''One. Two.'' @ [10]) 2500 = [lit ''One. Two.''] \<and>
   ws_normalize (lit ''One. Two.'' @ [10]) = lit ''One. Two.''"
  by (simp add: seg_eval ws_normalize_def words_of_def)

end
